theory Spec2Isabelle
  imports
    Complex_Main
    "HOL-Library.AList"
    "HOL-Library.Char_ord"
    "HOL-Library.List_Lexorder"
    "HOL-Library.Product_Lexorder"
begin

section \<open>The compressed-storage graph of \<open>n2v/csf_graph.py\<close>\<close>

text \<open>
  The class \<open>CSFGraph\<close> reads a file of lines \<open>source target weight\<close>, keeps every accepted
  line in both directions, and lays the edges out in three arrays: \<open>edge_to\<close>,
  \<open>edge_weight\<close> and \<open>offset_to_edge_\<close>. This theory embeds the constructor and the
  query methods as functions and proves what they do.

  Conventions of the embedding.
  \<^item> A Python \<open>str\<close> is a \<open>string\<close>; a \<open>char\<close> stands for a code point below 256. The order
    on strings is the lexicographic order of the code points, as Python compares \<open>str\<close>.
  \<^item> A Python \<open>set\<close> is a list without duplicates in insertion order, a \<open>dict\<close> an
    association list in insertion order, a \<open>defaultdict\<close> a \<open>dict\<close> whose read of a
    missing key stores the default value under that key and returns it.
  \<^item> An exception is a value \<open>Inl e\<close> of the result; a method that may store into a
    \<open>defaultdict\<close> returns the graph next to its result.
  \<^item> Indices and offsets are natural numbers: the three arrays are \<open>int32\<close> arrays, and
    the indices written to them stay below \<open>2^31\<close> for every file of fewer than \<open>2^30\<close>
    lines. The weights written to \<open>edge_weight\<close> are converted as numpy converts them.
  \<^item> What Python and numpy do outside the repository's code is a parameter: the builtin
    \<open>float\<close> on a string, what the installed numpy does with an integer beyond 32 bits,
    and the file system.
\<close>

subsection \<open>Python values\<close>

datatype error = TypeError | ValueError | OverflowError | IndexError | OSError

text \<open>A Python \<open>float\<close>: a finite value (every binary64 number is a rational), an infinity or
  a NaN.\<close>

datatype pyfloat = Finite rat | PosInf | NegInf | NaN

text \<open>The argument \<open>filepath\<close>: \<open>None\<close>, a \<open>str\<close>, or a value of another type.\<close>

datatype pyarg = PyNone | PyStr string | PyOther

text \<open>What a path names: a file that \<open>open\<close> reads, as the list of its lines, or something
  that exists and that \<open>open\<close> refuses (a directory, a file without read permission).\<close>

datatype fs_entry = Readable "string list" | Unreadable

record py_env =
  py_float :: "string \<Rightarrow> pyfloat option"
  int32_out_of_range :: "int \<Rightarrow> error + int"
  file_system :: "string \<Rightarrow> fs_entry option"

type_synonym ('k, 'v) dict = "('k \<times> 'v) list"

text \<open>\<open>d[k]\<close> on a \<open>defaultdict\<close> whose default is \<open>dflt\<close>.\<close>

definition dd_getitem :: "'v \<Rightarrow> ('k, 'v) dict \<Rightarrow> 'k \<Rightarrow> 'v \<times> ('k, 'v) dict" where
  "dd_getitem dflt d k =
     (case map_of d k of Some v \<Rightarrow> (v, d) | None \<Rightarrow> (dflt, d @ [(k, dflt)]))"

text \<open>\<open>d[k] += 1\<close> on a \<open>defaultdict(int)\<close>: a read, then a store.\<close>

definition dd_incr :: "'k \<Rightarrow> ('k, nat) dict \<Rightarrow> ('k, nat) dict" where
  "dd_incr k d = (case dd_getitem 0 d k of (c, d') \<Rightarrow> AList.update k (c + 1) d')"

text \<open>Reading and writing one cell of a numpy array, for an index that is not negative.\<close>

definition np_getitem :: "'a list \<Rightarrow> nat \<Rightarrow> error + 'a" where
  "np_getitem xs i = (if i < length xs then Inr (xs ! i) else Inl IndexError)"

definition np_setitem :: "'a list \<Rightarrow> nat \<Rightarrow> 'a \<Rightarrow> error + 'a list" where
  "np_setitem xs i v = (if i < length xs then Inr (xs[i := v]) else Inl IndexError)"

text \<open>Python's \<open>int(x)\<close> on a finite float rounds towards zero.\<close>

definition py_trunc :: "rat \<Rightarrow> int" where
  "py_trunc q = (if q < 0 then \<lceil>q\<rceil> else \<lfloor>q\<rfloor>)"

text \<open>
  Storing a Python \<open>float\<close> into a cell of an \<open>int32\<close> array, as line 146 does with
  \<open>self.edge_weight[j] = edge.weight\<close>. numpy converts the value as \<open>int(x)\<close> does: it raises
  \<open>ValueError\<close> (cannot convert float NaN to integer) on a NaN and \<open>OverflowError\<close> (cannot
  convert float infinity to integer) on an infinity, and stores the integer part when it
  fits 32 bits. What happens to an integer that does not fit depends on the numpy release
  and the platform (it wraps or raises): the parameter \<open>oor\<close>.
\<close>

definition int32_of_float :: "(int \<Rightarrow> error + int) \<Rightarrow> pyfloat \<Rightarrow> error + int" where
  "int32_of_float oor w =
     (case w of
        NaN \<Rightarrow> Inl ValueError
      | PosInf \<Rightarrow> Inl OverflowError
      | NegInf \<Rightarrow> Inl OverflowError
      | Finite q \<Rightarrow>
          (let t = py_trunc q
           in if - (2 ^ 31) \<le> t \<and> t < 2 ^ 31 then Inr t else oor t))"

definition ebind :: "error + 'a \<Rightarrow> ('a \<Rightarrow> error + 'b) \<Rightarrow> error + 'b" where
  "ebind m f = (case m of Inl e \<Rightarrow> Inl e | Inr v \<Rightarrow> f v)"

subsection \<open>Splitting a line\<close>

text \<open>\<open>str.isspace\<close> on the code points below 256.\<close>

definition isspace :: "char \<Rightarrow> bool" where
  "isspace c =
     (let n = (of_char c :: nat)
      in (9 \<le> n \<and> n \<le> 13) \<or> (28 \<le> n \<and> n \<le> 32) \<or> n = 133 \<or> n = 160)"

text \<open>\<open>line.rstrip('\n')\<close>.\<close>

definition rstrip_newline :: "string \<Rightarrow> string" where
  "rstrip_newline s = rev (dropWhile (\<lambda>c. c = CHR 0x0A) (rev s))"

text \<open>\<open>s.split()\<close>: the maximal runs of characters that are not whitespace; \<open>cur\<close> is the
  run being read.\<close>

fun split_from :: "string \<Rightarrow> string \<Rightarrow> string list" where
  "split_from cur [] = (if cur = [] then [] else [cur])"
| "split_from cur (c # cs) =
     (if isspace c then (if cur = [] then split_from [] cs else cur # split_from [] cs)
      else split_from (cur @ [c]) cs)"

definition py_split :: "string \<Rightarrow> string list" where
  "py_split s = split_from [] s"

subsection \<open>The class \<open>Edge\<close>\<close>

datatype Edge = Edge (nodeA: string) (nodeB: string) (weight_of: pyfloat)

definition get_edge_type_string :: "Edge \<Rightarrow> error + string" where
  "get_edge_type_string e =
     (case nodeA e of
        [] \<Rightarrow> Inl IndexError
      | na # _ \<Rightarrow> (case nodeB e of [] \<Rightarrow> Inl IndexError | nb # _ \<Rightarrow> Inr (sort [na, nb])))"

text \<open>\<open>__eq__\<close> and \<open>__hash__\<close> look at the two nodes only.\<close>

definition Edge_key :: "Edge \<Rightarrow> string \<times> string" where
  "Edge_key e = (nodeA e, nodeB e)"

definition Edge_eq :: "Edge \<Rightarrow> Edge \<Rightarrow> bool" where
  "Edge_eq e other = ((nodeA e, nodeB e) = (nodeA other, nodeB other))"

definition Edge_lt :: "Edge \<Rightarrow> Edge \<Rightarrow> bool" where
  "Edge_lt e other =
     (if nodeA e = nodeA other then nodeB e < nodeB other else nodeA e < nodeA other)"

subsection \<open>Reading the file (lines 66 to 91 of \<open>__init__\<close>)\<close>

text \<open>\<open>s.add(x)\<close> on a set of strings, and on a set of edges, where an edge that is equal to
  a member (same two nodes) is not stored: the member stays.\<close>

definition set_add :: "string \<Rightarrow> string list \<Rightarrow> string list" where
  "set_add x xs = (if x \<in> set xs then xs else xs @ [x])"

definition edges_add :: "Edge \<Rightarrow> Edge list \<Rightarrow> Edge list" where
  "edges_add e es = (if list_ex (\<lambda>m. Edge_eq m e) es then es else es @ [e])"

text \<open>One line: \<open>None\<close> when the loop skips it (not three fields, or a third field that
  \<open>float\<close> rejects), else the two labels and the weight.\<close>

definition parse_line :: "(string \<Rightarrow> pyfloat option) \<Rightarrow> string \<Rightarrow> (string \<times> string \<times> pyfloat) option" where
  "parse_line pf line =
     (let fields = py_split (rstrip_newline line)
      in if \<not> length fields = 3 then None
         else (case pf (fields ! 2) of
                 None \<Rightarrow> None
               | Some weight \<Rightarrow> Some (fields ! 0, fields ! 1, weight)))"

type_synonym ingest = "string list \<times> Edge list \<times> (string, nat) dict"

fun read_lines :: "(string \<Rightarrow> pyfloat option) \<Rightarrow> string list \<Rightarrow> ingest \<Rightarrow> error + ingest" where
  "read_lines pf [] st = Inr st"
| "read_lines pf (line # rest) (nodes, edges, edgetype2count) =
     (case parse_line pf line of
        None \<Rightarrow> read_lines pf rest (nodes, edges, edgetype2count)
      | Some (a, b, weight) \<Rightarrow>
          (let nodes1 = set_add b (set_add a nodes);
               edge = Edge a b weight;
               inverse_edge = Edge b a weight;
               edges1 = edges_add inverse_edge (edges_add edge edges)
           in ebind (get_edge_type_string edge)
                (\<lambda>t. read_lines pf rest (nodes1, edges1, dd_incr t edgetype2count))))"

subsection \<open>Building the arrays (lines 97 to 147 of \<open>__init__\<close>)\<close>

record CSFGraph =
  edgetype2count_dictionary :: "(string, nat) dict"
  nodetype2count_dictionary :: "(string, nat) dict"
  node_to_index_map :: "(string, nat) dict"
  index_to_node_map :: "(nat, string) dict"
  edge_to :: "nat list"
  edge_weight :: "int list"
  offset_to_edge :: "nat list"

text \<open>Lines 107 to 110: the two index maps.\<close>

fun index_nodes ::
  "string list \<Rightarrow> nat list \<Rightarrow> (string, nat) dict \<times> (nat, string) dict
     \<Rightarrow> (string, nat) dict \<times> (nat, string) dict" where
  "index_nodes node_list [] maps = maps"
| "index_nodes node_list (i # rest) (n2i, i2n) =
     (let node = node_list ! i
      in index_nodes node_list rest (AList.update node i n2i, AList.update i node i2n))"

text \<open>Lines 113 to 116, the first pass: how many edges leave each source index.\<close>

fun count_pass ::
  "Edge list \<Rightarrow> (string, nat) dict \<times> (nat, nat) dict \<Rightarrow> (string, nat) dict \<times> (nat, nat) dict" where
  "count_pass [] st = st"
| "count_pass (edge # rest) (n2i, index2edge_count) =
     (case dd_getitem 0 n2i (nodeA edge) of
        (source_index, n2i1) \<Rightarrow> count_pass rest (n2i1, dd_incr source_index index2edge_count))"

text \<open>Lines 122 to 130, the second pass: the running sum of the counts. The state is the
  node-type counts, the index map, the counts, \<open>i\<close>, \<open>offset\<close> and the offset array.\<close>

type_synonym offset_state =
  "(string, nat) dict \<times> (string, nat) dict \<times> (nat, nat) dict \<times> nat \<times> nat \<times> nat list"

fun offset_pass :: "string list \<Rightarrow> offset_state \<Rightarrow> error + offset_state" where
  "offset_pass [] st = Inr st"
| "offset_pass (n # rest) (nodetype2count, n2i, index2edge_count, i, offset, offsets) =
     (case n of
        [] \<Rightarrow> Inl IndexError
      | c # _ \<Rightarrow>
          (case dd_getitem 0 n2i n of
             (source_index, n2i1) \<Rightarrow>
               (case dd_getitem 0 index2edge_count source_index of
                  (n_edges, index2edge_count1) \<Rightarrow>
                    ebind (np_setitem offsets (i + 1) (offset + n_edges))
                      (\<lambda>offsets1. offset_pass rest
                         (dd_incr [c] nodetype2count, n2i1, index2edge_count1,
                          i + 1, offset + n_edges, offsets1)))))"

text \<open>Lines 134 to 147, the third pass: the destinations and the weights, in the order of
  the edge list. The state is the index map, \<open>current_source_index\<close>, \<open>offset\<close>, \<open>j\<close> and
  the two arrays.\<close>

type_synonym fill_state = "(string, nat) dict \<times> int \<times> nat \<times> nat \<times> nat list \<times> int list"

fun fill_pass :: "(int \<Rightarrow> error + int) \<Rightarrow> Edge list \<Rightarrow> fill_state \<Rightarrow> error + fill_state" where
  "fill_pass oor [] st = Inr st"
| "fill_pass oor (edge # rest) (n2i, current_source_index, offset, j, edge_to_arr, edge_weight_arr) =
     (case dd_getitem 0 n2i (nodeA edge) of
        (source_index, n2i1) \<Rightarrow>
          (case dd_getitem 0 n2i1 (nodeB edge) of
             (dest_index, n2i2) \<Rightarrow>
               (let (current_source_index1, offset1) =
                      (if int source_index \<noteq> current_source_index then (int source_index, 0)
                       else (current_source_index, offset + 1))
                in ebind (np_setitem edge_to_arr j dest_index)
                     (\<lambda>edge_to1. ebind (int32_of_float oor (weight_of edge))
                        (\<lambda>v. ebind (np_setitem edge_weight_arr j v)
                           (\<lambda>edge_weight1. fill_pass oor rest
                              (n2i2, current_source_index1, offset1, j + 1,
                               edge_to1, edge_weight1)))))))"

text \<open>
  \<open>sorted(edges)\<close> compares with \<open>__lt__\<close>, the strict lexicographic order of the pair
  \<open>(nodeA, nodeB)\<close>, and is stable: it is the stable insertion sort on \<open>Edge_key\<close>. No two
  members of the set have the same key, so the order in which the set hands them out
  does not show in the result.
\<close>

definition construct ::
  "(int \<Rightarrow> error + int) \<Rightarrow> ingest \<Rightarrow> error + CSFGraph" where
  "construct oor ing =
     (case ing of (nodes, edges, edgetype2count) \<Rightarrow>
       (let node_list = sort nodes;
            edge_list = sort_key Edge_key edges;
            total_edge_count = length edge_list;
            total_vertex_count = length node_list
        in case index_nodes node_list [0..<length node_list] ([], []) of
           (n2i, i2n) \<Rightarrow>
             (case count_pass edge_list (n2i, []) of
                (n2i1, index2edge_count) \<Rightarrow>
                  ebind (np_setitem (replicate (total_vertex_count + 1) 0) 0 0)
                    (\<lambda>offsets0. ebind (offset_pass node_list ([], n2i1, index2edge_count, 0, 0, offsets0))
                       (\<lambda>(nodetype2count, n2i2, index2edge_count1, i, offset, offsets).
                          ebind (fill_pass oor edge_list
                                   (n2i2, - 1, 0, 0,
                                    replicate total_edge_count 0, replicate total_edge_count 0))
                            (\<lambda>(n2i3, current_source_index, offset1, j, edge_to1, edge_weight1).
                               Inr \<lparr>edgetype2count_dictionary = edgetype2count,
                                    nodetype2count_dictionary = nodetype2count,
                                    node_to_index_map = n2i3,
                                    index_to_node_map = i2n,
                                    edge_to = edge_to1,
                                    edge_weight = edge_weight1,
                                    offset_to_edge = offsets\<rparr>))))))"

text \<open>The body of \<open>__init__\<close> once the file is open, and \<open>__init__\<close> itself.\<close>

definition build :: "py_env \<Rightarrow> string list \<Rightarrow> error + CSFGraph" where
  "build env lines =
     ebind (read_lines (py_float env) lines ([], [], [])) (construct (int32_out_of_range env))"

definition CSFGraph_init :: "py_env \<Rightarrow> pyarg \<Rightarrow> error + CSFGraph" where
  "CSFGraph_init env filepath =
     (case filepath of
        PyNone \<Rightarrow> Inl TypeError
      | PyOther \<Rightarrow> Inl TypeError
      | PyStr path \<Rightarrow>
          (case file_system env path of
             None \<Rightarrow> Inl TypeError
           | Some Unreadable \<Rightarrow> Inl OSError
           | Some (Readable lines) \<Rightarrow> build env lines))"

subsection \<open>The query methods\<close>

definition node_count :: "CSFGraph \<Rightarrow> nat" where
  "node_count g = length (node_to_index_map g)"

definition edge_count :: "CSFGraph \<Rightarrow> nat" where
  "edge_count g = length (edge_to g)"

definition nodes :: "CSFGraph \<Rightarrow> string list" where
  "nodes g = map fst (node_to_index_map g)"

text \<open>The two offsets that bound the block of \<open>source_idx\<close>, as the arguments of \<open>range\<close>.\<close>

definition block_range :: "CSFGraph \<Rightarrow> nat \<Rightarrow> error + nat list" where
  "block_range g source_idx =
     ebind (np_getitem (offset_to_edge g) source_idx)
       (\<lambda>lo. ebind (np_getitem (offset_to_edge g) (source_idx + 1))
          (\<lambda>hi. Inr [lo..<hi]))"

fun weight_scan :: "CSFGraph \<Rightarrow> nat \<Rightarrow> nat list \<Rightarrow> error + int" where
  "weight_scan g dest_idx [] = Inl TypeError"
| "weight_scan g dest_idx (i # rest) =
     ebind (np_getitem (edge_to g) i)
       (\<lambda>d. if dest_idx = d then np_getitem (edge_weight g) i else weight_scan g dest_idx rest)"

definition weight :: "CSFGraph \<Rightarrow> string \<Rightarrow> string \<Rightarrow> (error + int) \<times> CSFGraph" where
  "weight g source dest =
     (case dd_getitem 0 (node_to_index_map g) source of
        (source_idx, n2i1) \<Rightarrow>
          (case dd_getitem 0 n2i1 dest of
             (dest_idx, n2i2) \<Rightarrow>
               (let g1 = g\<lparr>node_to_index_map := n2i2\<rparr>
                in (ebind (block_range g1 source_idx) (weight_scan g1 dest_idx), g1))))"

fun has_edge_scan :: "CSFGraph \<Rightarrow> nat \<Rightarrow> nat list \<Rightarrow> error + bool" where
  "has_edge_scan g dest_idx [] = Inr False"
| "has_edge_scan g dest_idx (i # rest) =
     ebind (np_getitem (edge_to g) i)
       (\<lambda>nbr_idx. if nbr_idx = dest_idx then Inr True else has_edge_scan g dest_idx rest)"

definition has_edge :: "CSFGraph \<Rightarrow> string \<Rightarrow> string \<Rightarrow> (error + bool) \<times> CSFGraph" where
  "has_edge g src dest =
     (case dd_getitem 0 (node_to_index_map g) src of
        (source_idx, n2i1) \<Rightarrow>
          (case dd_getitem 0 n2i1 dest of
             (dest_idx, n2i2) \<Rightarrow>
               (let g1 = g\<lparr>node_to_index_map := n2i2\<rparr>
                in (ebind (block_range g1 source_idx) (has_edge_scan g1 dest_idx), g1))))"

text \<open>The loop of \<open>neighbors\<close>; it stops at the first exception, and what it stored into
  \<open>index_to_node_map\<close> before stays.\<close>

fun neighbors_scan ::
  "nat list \<Rightarrow> nat list \<Rightarrow> (nat, string) dict \<Rightarrow> string list \<Rightarrow> (error + string list) \<times> (nat, string) dict" where
  "neighbors_scan edge_to_arr [] i2n nbrs = (Inr nbrs, i2n)"
| "neighbors_scan edge_to_arr (i # rest) i2n nbrs =
     (case np_getitem edge_to_arr i of
        Inl e \<Rightarrow> (Inl e, i2n)
      | Inr d \<Rightarrow>
          (case dd_getitem [] i2n d of
             (nbr, i2n1) \<Rightarrow> neighbors_scan edge_to_arr rest i2n1 (nbrs @ [nbr])))"

definition neighbors :: "CSFGraph \<Rightarrow> string \<Rightarrow> (error + string list) \<times> CSFGraph" where
  "neighbors g source =
     (case dd_getitem 0 (node_to_index_map g) source of
        (source_idx, n2i1) \<Rightarrow>
          (let g1 = g\<lparr>node_to_index_map := n2i1\<rparr>
           in case block_range g1 source_idx of
                Inl e \<Rightarrow> (Inl e, g1)
              | Inr is \<Rightarrow>
                  (case neighbors_scan (edge_to g1) is (index_to_node_map g1) [] of
                     (r, i2n1) \<Rightarrow> (r, g1\<lparr>index_to_node_map := i2n1\<rparr>))))"

text \<open>\<open>edges()\<close>: the inner loop over one block, and the outer loop over the source
  indices.\<close>

fun edges_block ::
  "nat list \<Rightarrow> string \<Rightarrow> nat list \<Rightarrow> (nat, string) dict \<Rightarrow> (string \<times> string) list
     \<Rightarrow> (error + (string \<times> string) list) \<times> (nat, string) dict" where
  "edges_block edge_to_arr src [] i2n edge_list = (Inr edge_list, i2n)"
| "edges_block edge_to_arr src (j # rest) i2n edge_list =
     (case np_getitem edge_to_arr j of
        Inl e \<Rightarrow> (Inl e, i2n)
      | Inr nbr_idx \<Rightarrow>
          (case dd_getitem [] i2n nbr_idx of
             (nbr, i2n1) \<Rightarrow> edges_block edge_to_arr src rest i2n1 (edge_list @ [(src, nbr)])))"

fun edges_loop ::
  "CSFGraph \<Rightarrow> nat list \<Rightarrow> (nat, string) dict \<Rightarrow> (string \<times> string) list
     \<Rightarrow> (error + (string \<times> string) list) \<times> (nat, string) dict" where
  "edges_loop g [] i2n edge_list = (Inr edge_list, i2n)"
| "edges_loop g (source_idx # rest) i2n edge_list =
     (case dd_getitem [] i2n source_idx of
        (src, i2n1) \<Rightarrow>
          (case block_range g source_idx of
             Inl e \<Rightarrow> (Inl e, i2n1)
           | Inr js \<Rightarrow>
               (case edges_block (edge_to g) src js i2n1 edge_list of
                  (Inl e, i2n2) \<Rightarrow> (Inl e, i2n2)
                | (Inr edge_list1, i2n2) \<Rightarrow> edges_loop g rest i2n2 edge_list1)))"

definition edges :: "CSFGraph \<Rightarrow> (error + (string \<times> string) list) \<times> CSFGraph" where
  "edges g =
     (case edges_loop g [0..<length (offset_to_edge g) - 1] (index_to_node_map g) [] of
        (r, i2n1) \<Rightarrow> (r, g\<lparr>index_to_node_map := i2n1\<rparr>))"

subsection \<open>Vocabulary of the statements\<close>

text \<open>The accepted lines of a file, in the order of the file: the lines that the reading
  loop does not skip, as triples of the two labels and the parsed weight.\<close>

definition accepted ::
  "(string \<Rightarrow> pyfloat option) \<Rightarrow> string list \<Rightarrow> (string \<times> string \<times> pyfloat) list" where
  "accepted pf lines = List.map_filter (parse_line pf) lines"

text \<open>What one accepted line adds to the set of nodes and to the set of edges.\<close>

definition add_triple_nodes :: "string list \<Rightarrow> string \<times> string \<times> pyfloat \<Rightarrow> string list" where
  "add_triple_nodes ns t = (case t of (a, b, w) \<Rightarrow> set_add b (set_add a ns))"

definition add_triple_edges :: "Edge list \<Rightarrow> string \<times> string \<times> pyfloat \<Rightarrow> Edge list" where
  "add_triple_edges es t =
     (case t of (a, b, w) \<Rightarrow> edges_add (Edge b a w) (edges_add (Edge a b w) es))"

text \<open>An accepted line joins \<open>a\<close> and \<open>b\<close> when its two labels are \<open>a\<close> and \<open>b\<close>, in either
  order; \<open>first_weight\<close> is the weight of the first such line.\<close>

definition joins :: "string \<Rightarrow> string \<Rightarrow> string \<times> string \<times> pyfloat \<Rightarrow> bool" where
  "joins a b t = (case t of (x, y, w) \<Rightarrow> (x = a \<and> y = b) \<or> (x = b \<and> y = a))"

definition first_weight ::
  "(string \<times> string \<times> pyfloat) list \<Rightarrow> string \<Rightarrow> string \<Rightarrow> pyfloat option" where
  "first_weight acc a b = map_option (\<lambda>t. snd (snd t)) (find (joins a b) acc)"

text \<open>The value that a \<open>defaultdict(int)\<close> holds for a key, stored or not.\<close>

definition dd_val :: "('k, nat) dict \<Rightarrow> 'k \<Rightarrow> nat" where
  "dd_val d k = (case map_of d k of None \<Rightarrow> 0 | Some v \<Rightarrow> v)"

text \<open>The block of a source index: the cells of an array between its two offsets.\<close>

definition block :: "CSFGraph \<Rightarrow> 'a list \<Rightarrow> nat \<Rightarrow> 'a list" where
  "block g arr s =
     take (offset_to_edge g ! (s + 1) - offset_to_edge g ! s) (drop (offset_to_edge g ! s) arr)"

text \<open>The layout that the three passes produce from the sorted node list \<open>NL\<close> and the
  sorted edge list \<open>EL\<close>.\<close>

definition layout :: "(int \<Rightarrow> error + int) \<Rightarrow> string list \<Rightarrow> Edge list \<Rightarrow> CSFGraph \<Rightarrow> bool" where
  "layout oor NL EL g \<longleftrightarrow>
     node_to_index_map g = zip NL [0..<length NL] \<and>
     index_to_node_map g = zip [0..<length NL] NL \<and>
     length (edge_to g) = length EL \<and>
     length (edge_weight g) = length EL \<and>
     (\<forall>k<length EL. map_of (zip NL [0..<length NL]) (nodeB (EL ! k)) = Some (edge_to g ! k)) \<and>
     (\<forall>k<length EL. int32_of_float oor (weight_of (EL ! k)) = Inr (edge_weight g ! k)) \<and>
     length (offset_to_edge g) = length NL + 1 \<and>
     (\<forall>k\<le>length NL. offset_to_edge g ! k = length (filter (\<lambda>e. nodeA e \<in> set (take k NL)) EL))"

text \<open>The unordered pair of an accepted line, smaller label first, and the distinct
  unordered pairs of a list of accepted lines.\<close>

definition unordered_pair :: "string \<times> string \<times> pyfloat \<Rightarrow> string \<times> string" where
  "unordered_pair t = (case t of (a, b, w) \<Rightarrow> (min a b, max a b))"

definition unordered_pairs :: "(string \<times> string \<times> pyfloat) list \<Rightarrow> (string \<times> string) list" where
  "unordered_pairs acc = remdups (map unordered_pair acc)"

text \<open>The ordered pairs that the accepted lines put into the edge set: each line in both
  directions.\<close>

definition pair_keys :: "(string \<times> string \<times> pyfloat) list \<Rightarrow> (string \<times> string) set" where
  "pair_keys acc = (\<Union>t\<in>set acc. {(fst t, fst (snd t)), (fst (snd t), fst t)})"

text \<open>The lists \<open>node_list\<close> and \<open>edge_list\<close> of \<open>__init__\<close>, from the accepted lines.\<close>

definition node_list_of :: "(string \<times> string \<times> pyfloat) list \<Rightarrow> string list" where
  "node_list_of acc = sort (foldl add_triple_nodes [] acc)"

definition edge_list_of :: "(string \<times> string \<times> pyfloat) list \<Rightarrow> Edge list" where
  "edge_list_of acc = sort_key Edge_key (foldl add_triple_edges [] acc)"

text \<open>What the three passes rely on: sorted lists without repetition, and edges between
  listed nodes.\<close>

definition graph_lists :: "string list \<Rightarrow> Edge list \<Rightarrow> bool" where
  "graph_lists NL EL \<longleftrightarrow>
     sorted NL \<and> distinct NL \<and> sorted (map Edge_key EL) \<and> distinct (map Edge_key EL) \<and>
     (\<forall>e\<in>set EL. nodeA e \<in> set NL \<and> nodeB e \<in> set NL)"

subsection \<open>An environment for the examples\<close>

text \<open>The builtin \<open>float\<close> on the weight fields of the examples: the four decimal
  literals and \<open>nan\<close>, which it parses, and \<open>bad\<close>, on which it raises \<open>ValueError\<close>. No
  example reads another string.\<close>

definition example_float :: "string \<Rightarrow> pyfloat option" where
  "example_float s =
     (if s = ''1.0'' then Some (Finite 1)
      else if s = ''1.5'' then Some (Finite (3 / 2))
      else if s = ''2.0'' then Some (Finite 2)
      else if s = ''5.0'' then Some (Finite 5)
      else if s = ''nan'' then Some NaN
      else None)"

text \<open>A numpy that raises on an integer beyond 32 bits, and a file system with one file,
  \<open>graph.txt\<close>, of the given lines.\<close>

definition example_env :: "string list \<Rightarrow> py_env" where
  "example_env lines =
     \<lparr>py_float = example_float,
      int32_out_of_range = (\<lambda>t. Inl OverflowError),
      file_system = (\<lambda>p. if p = ''graph.txt'' then Some (Readable lines) else None)\<rparr>"

text \<open>The scenario of the specification: two well-formed lines, a line whose weight does
  not parse and a line of two fields; and the graph that \<open>__init__\<close> builds from it.\<close>

definition scenario_lines :: "string list" where
  "scenario_lines = [''g1 p1 1.0'', ''g1 g2 2.0'', ''g2 p1 bad'', ''onlytwo fields'']"

definition scenario_graph :: CSFGraph where
  "scenario_graph =
     \<lparr>edgetype2count_dictionary = [(''gp'', 1), (''gg'', 1)],
      nodetype2count_dictionary = [(''g'', 2), (''p'', 1)],
      node_to_index_map = [(''g1'', 0), (''g2'', 1), (''p1'', 2)],
      index_to_node_map = [(0, ''g1''), (1, ''g2''), (2, ''p1'')],
      edge_to = [1, 2, 0, 0],
      edge_weight = [2, 1, 2, 1],
      offset_to_edge = [0, 2, 3, 4]\<rparr>"

text \<open>The same pair on two lines with different weights, and the graph built from it.\<close>

definition duplicate_lines :: "string list" where
  "duplicate_lines = [''a b 1.5'', ''a b 5.0'']"

definition duplicate_graph :: CSFGraph where
  "duplicate_graph =
     \<lparr>edgetype2count_dictionary = [(''ab'', 2)],
      nodetype2count_dictionary = [(''a'', 1), (''b'', 1)],
      node_to_index_map = [(''a'', 0), (''b'', 1)],
      index_to_node_map = [(0, ''a''), (1, ''b'')],
      edge_to = [1, 0],
      edge_weight = [1, 1],
      offset_to_edge = [0, 1, 2]\<rparr>"

text \<open>The same pair on two lines in opposite directions, after a line of another pair, and
  the graph built from it.\<close>

definition reversed_lines :: "string list" where
  "reversed_lines = [''g1 p1 2.0'', ''a b 1.5'', ''b a 5.0'']"

definition reversed_graph :: CSFGraph where
  "reversed_graph =
     \<lparr>edgetype2count_dictionary = [(''gp'', 1), (''ab'', 2)],
      nodetype2count_dictionary = [(''a'', 1), (''b'', 1), (''g'', 1), (''p'', 1)],
      node_to_index_map = [(''a'', 0), (''b'', 1), (''g1'', 2), (''p1'', 3)],
      index_to_node_map = [(0, ''a''), (1, ''b''), (2, ''g1''), (3, ''p1'')],
      edge_to = [1, 0, 3, 2],
      edge_weight = [1, 1, 2, 2],
      offset_to_edge = [0, 1, 2, 3, 4]\<rparr>"

text \<open>A file whose only line is a self-loop, and the graph built from it.\<close>

definition self_loop_lines :: "string list" where
  "self_loop_lines = [''a a 1.0'']"

definition self_loop_graph :: CSFGraph where
  "self_loop_graph =
     \<lparr>edgetype2count_dictionary = [(''aa'', 1)],
      nodetype2count_dictionary = [(''a'', 1)],
      node_to_index_map = [(''a'', 0)],
      index_to_node_map = [(0, ''a'')],
      edge_to = [0],
      edge_weight = [1],
      offset_to_edge = [0, 1]\<rparr>"

text \<open>A file whose only line has a weight that \<open>float\<close> parses as a NaN.\<close>

definition nan_lines :: "string list" where
  "nan_lines = [''a b nan'']"

text \<open>
  A numpy whose \<open>int32\<close> store wraps, as numpy 1 does where the C \<open>long\<close> has 64 bits: the
  integer \<open>int(x)\<close> is converted to a C \<open>long\<close>, with an \<open>OverflowError\<close> beyond 64 bits, and
  cast to 32 bits, which keeps its low 32 bits in two's complement.
\<close>

definition long_to_int32 :: "int \<Rightarrow> error + int" where
  "long_to_int32 t =
     (if - (2 ^ 63) \<le> t \<and> t < 2 ^ 63 then Inr ((t + 2 ^ 31) mod 2 ^ 32 - 2 ^ 31)
      else Inl OverflowError)"

text \<open>
  The builtin \<open>float\<close> on two more weight fields: \<open>3e9\<close>, which is three thousand million,
  and \<open>-1.5\<close>.
\<close>

definition example_float_signed :: "string \<Rightarrow> pyfloat option" where
  "example_float_signed s =
     (if s = ''3e9'' then Some (Finite 3000000000)
      else if s = ''-1.5'' then Some (Finite (- (3 / 2)))
      else example_float s)"

text \<open>
  The environment of the examples with these two functions.
\<close>

definition wrapping_env :: "string list \<Rightarrow> py_env" where
  "wrapping_env lines =
     \<lparr>py_float = example_float_signed,
      int32_out_of_range = long_to_int32,
      file_system = (\<lambda>p. if p = ''graph.txt'' then Some (Readable lines) else None)\<rparr>"

text \<open>
  A file whose only weight is beyond 32 bits, and the graph that the wrapping numpy builds
  from it.
\<close>

definition big_weight_lines :: "string list" where
  "big_weight_lines = [''a b 3e9'']"

definition big_weight_graph :: CSFGraph where
  "big_weight_graph =
     \<lparr>edgetype2count_dictionary = [(''ab'', 1)],
      nodetype2count_dictionary = [(''a'', 1), (''b'', 1)],
      node_to_index_map = [(''a'', 0), (''b'', 1)],
      index_to_node_map = [(0, ''a''), (1, ''b'')],
      edge_to = [1, 0],
      edge_weight = [- 1294967296, - 1294967296],
      offset_to_edge = [0, 1, 2]\<rparr>"

text \<open>
  A file whose only weight is negative and not an integer, and the graph built from it.
\<close>

definition negative_lines :: "string list" where
  "negative_lines = [''a b -1.5'']"

definition negative_graph :: CSFGraph where
  "negative_graph =
     \<lparr>edgetype2count_dictionary = [(''ab'', 1)],
      nodetype2count_dictionary = [(''a'', 1), (''b'', 1)],
      node_to_index_map = [(''a'', 0), (''b'', 1)],
      index_to_node_map = [(0, ''a''), (1, ''b'')],
      edge_to = [1, 0],
      edge_weight = [- 1, - 1],
      offset_to_edge = [0, 1, 2]\<rparr>"

section \<open>Lemmas\<close>

subsection \<open>Reading the file\<close>

lemma split_from_nonempty: "[] \<notin> set (split_from cur s)"
  by (induction s arbitrary: cur) auto

lemma parse_line_nonempty:
  assumes "parse_line pf line = Some (a, b, w)"
  shows "a \<noteq> [] \<and> b \<noteq> []"
proof -
  let ?fs = "py_split (rstrip_newline line)"
  from assms have len: "length ?fs = 3" and a: "a = ?fs ! 0" and b: "b = ?fs ! 1"
    by (auto simp: parse_line_def Let_def split: if_splits option.splits)
  have "?fs ! 0 \<in> set ?fs" "?fs ! 1 \<in> set ?fs"
    using len by (simp_all only: nth_mem)  
  moreover have "[] \<notin> set ?fs"
    unfolding py_split_def by (rule split_from_nonempty)
  ultimately show ?thesis
    using a b by metis
qed

lemma accepted_Nil: "accepted pf [] = []"
  by (simp add: accepted_def map_filter_simps)

lemma accepted_Cons:
  "accepted pf (l # ls) =
     (case parse_line pf l of None \<Rightarrow> accepted pf ls | Some t \<Rightarrow> t # accepted pf ls)"
  by (simp add: accepted_def map_filter_simps split: option.splits)

lemma get_edge_type_string_ok:
  "a \<noteq> [] \<Longrightarrow> b \<noteq> [] \<Longrightarrow> \<exists>t. get_edge_type_string (Edge a b w) = Inr t"
  by (cases a; cases b) (simp_all add: get_edge_type_string_def)

lemma read_lines_folds:
  "\<exists>et'. read_lines pf lines (ns, es, et) =
     Inr (foldl add_triple_nodes ns (accepted pf lines),
          foldl add_triple_edges es (accepted pf lines), et')"
proof (induction lines arbitrary: ns es et)
  case Nil
  show ?case by (simp add: accepted_Nil)
next
  case (Cons l ls)
  show ?case
  proof (cases "parse_line pf l")
    case None
    then show ?thesis using Cons.IH [of ns es et] by (simp add: accepted_Cons)
  next
    case (Some t)
    obtain a b w where t: "t = (a, b, w)" by (cases t)
    from Some t parse_line_nonempty have "a \<noteq> []" "b \<noteq> []" by blast+
    then obtain ty where ty: "get_edge_type_string (Edge a b w) = Inr ty"
      using get_edge_type_string_ok by blast
    show ?thesis
      using Cons.IH [of "add_triple_nodes ns t" "add_triple_edges es t" "dd_incr ty et"] Some t ty
      by (simp add: accepted_Cons ebind_def add_triple_nodes_def add_triple_edges_def)
  qed
qed


lemma set_set_add: "set (set_add x xs) = insert x (set xs)"
  by (auto simp: set_add_def)

lemma distinct_set_add: "distinct xs \<Longrightarrow> distinct (set_add x xs)"
  by (simp add: set_add_def)

lemma nodes_fold:
  "distinct ns \<Longrightarrow>
     distinct (foldl add_triple_nodes ns acc) \<and>
     set (foldl add_triple_nodes ns acc) = set ns \<union> (\<Union>t\<in>set acc. {fst t, fst (snd t)})"
proof (induction acc arbitrary: ns)
  case Nil
  then show ?case by simp
next
  case (Cons t acc)
  have d: "distinct (add_triple_nodes ns t)"
    using Cons.prems by (cases t) (simp add: add_triple_nodes_def distinct_set_add)
  have s: "set (add_triple_nodes ns t) = set ns \<union> {fst t, fst (snd t)}"
    by (cases t) (auto simp: add_triple_nodes_def set_set_add)
  show ?case
    using Cons.IH [OF d] s by auto
qed

lemma Edge_eq_key: "Edge_eq m e \<longleftrightarrow> Edge_key m = Edge_key e"
  by (simp add: Edge_eq_def Edge_key_def)

lemma edges_add_iff:
  "edges_add e es = (if Edge_key e \<in> Edge_key ` set es then es else es @ [e])"
proof -
  have "list_ex (\<lambda>m. Edge_eq m e) es \<longleftrightarrow> Edge_key e \<in> Edge_key ` set es"
    unfolding list_ex_iff Edge_eq_key image_iff by (intro iffI; elim bexE; rule bexI [rotated]; assumption?) (erule sym)+
  then show ?thesis by (simp add: edges_add_def)
qed

lemma Edge_key_Edge: "Edge_key (Edge a b w) = (a, b)"
  by (simp add: Edge_key_def)

lemma edges_add_keys: "Edge_key ` set (edges_add e es) = insert (Edge_key e) (Edge_key ` set es)"
  by (auto simp: edges_add_iff)

lemma edges_add_distinct:
  "distinct (map Edge_key es) \<Longrightarrow> distinct (map Edge_key (edges_add e es))"
  by (simp add: edges_add_iff)

lemma find_append:
  "find P (xs @ ys) = (case find P xs of None \<Rightarrow> find P ys | Some x \<Rightarrow> Some x)"
  by (induction xs) auto

lemma first_weight_snoc_old:
  "first_weight acc a b = Some w \<Longrightarrow> first_weight (acc @ [t]) a b = Some w"
  by (auto simp: first_weight_def find_append split: option.splits)

lemma first_weight_snoc_new:
  "\<forall>u\<in>set acc. \<not> joins a b u \<Longrightarrow> joins a b t \<Longrightarrow>
     first_weight (acc @ [t]) a b = Some (snd (snd t))"
proof -
  assume "\<forall>u\<in>set acc. \<not> joins a b u" "joins a b t"
  then have "find (joins a b) acc = None" by (simp add: find_None_iff)
  with \<open>joins a b t\<close> show ?thesis
    by (simp add: first_weight_def find_append)
qed

lemma joins_iff: "joins a b t \<longleftrightarrow> (a, b) \<in> {(fst t, fst (snd t)), (fst (snd t), fst t)}"
  by (cases t) (auto simp: joins_def)

lemma joins_pair_keys: "(\<exists>u\<in>set acc. joins a b u) \<longleftrightarrow> (a, b) \<in> pair_keys acc"
  unfolding joins_iff pair_keys_def by blast

lemma pair_keys_snoc:
  "pair_keys (acc @ [(a, b, w)]) = insert (b, a) (insert (a, b) (pair_keys acc))"
  by (auto simp: pair_keys_def)

lemma edges_fold_inv:
  "distinct (map Edge_key (foldl add_triple_edges [] acc)) \<and>
   Edge_key ` set (foldl add_triple_edges [] acc) = pair_keys acc \<and>
   (\<forall>e\<in>set (foldl add_triple_edges [] acc).
      first_weight acc (nodeA e) (nodeB e) = Some (weight_of e))"
proof (induction acc rule: rev_induct)
  case Nil
  show ?case by (simp add: pair_keys_def)
next
  case (snoc t acc)
  obtain a b w where t: "t = (a, b, w)" by (cases t)
  let ?E = "foldl add_triple_edges [] acc"
  let ?E1 = "edges_add (Edge a b w) ?E"
  let ?E2 = "edges_add (Edge b a w) ?E1"
  have E2: "foldl add_triple_edges [] (acc @ [t]) = ?E2"
    by (simp add: t add_triple_edges_def)
  from snoc.IH have d: "distinct (map Edge_key ?E)"
    and k: "Edge_key ` set ?E = pair_keys acc"
    and fw: "\<forall>e\<in>set ?E. first_weight acc (nodeA e) (nodeB e) = Some (weight_of e)"
    by simp_all
  have d2: "distinct (map Edge_key ?E2)"
    using d by (intro edges_add_distinct)
  have k1: "Edge_key ` set ?E1 = insert (a, b) (pair_keys acc)"
    using k by (simp add: edges_add_keys Edge_key_Edge)
  have k2: "Edge_key ` set ?E2 = pair_keys (acc @ [t])"
    using k1 by (simp add: edges_add_keys Edge_key_Edge t pair_keys_snoc)
  have fw2: "first_weight (acc @ [t]) (nodeA e) (nodeB e) = Some (weight_of e)"
    if e: "e \<in> set ?E2" for e
  proof (cases "e \<in> set ?E")
    case True
    then show ?thesis using fw first_weight_snoc_old by blast
  next
    case False
    have jt: "joins a b t" "joins b a t" by (simp_all add: joins_def t)
    consider (ab) "e = Edge a b w" "(a, b) \<notin> pair_keys acc"
      | (ba) "e = Edge b a w" "(b, a) \<notin> insert (a, b) (pair_keys acc)"
      using e False k k1 by (auto simp: edges_add_iff Edge_key_Edge split: if_splits)
    then show ?thesis
    proof cases
      case ab
      then have "\<forall>u\<in>set acc. \<not> joins a b u" using joins_pair_keys by blast
      from first_weight_snoc_new [OF this jt(1)] ab(1) show ?thesis by (simp add: t)
    next
      case ba
      then have "\<forall>u\<in>set acc. \<not> joins b a u" using joins_pair_keys by blast
      from first_weight_snoc_new [OF this jt(2)] ba(1) show ?thesis by (simp add: t)
    qed
  qed
  show ?case
    unfolding E2 using d2 k2 [unfolded E2] fw2 by blast
qed


subsection \<open>The three passes\<close>

lemma update_new: "k \<notin> fst ` set al \<Longrightarrow> AList.update k v al = al @ [(k, v)]"
  by (induction al) auto

lemma nth_notin_take: "distinct xs \<Longrightarrow> k < length xs \<Longrightarrow> xs ! k \<notin> set (take k xs)"
  by (auto simp: in_set_conv_nth nth_eq_iff_index_eq)

lemma index_nodes_upt:
  "distinct NL \<Longrightarrow> k \<le> length NL \<Longrightarrow>
     index_nodes NL [k..<length NL] (zip (take k NL) [0..<k], zip [0..<k] (take k NL)) =
       (zip NL [0..<length NL], zip [0..<length NL] NL)"
proof (induction "length NL - k" arbitrary: k)
  case 0
  then show ?case by simp
next
  case (Suc d)
  then have k: "k < length NL" by simp
  have new1: "NL ! k \<notin> fst ` set (zip (take k NL) [0..<k])"
    using nth_notin_take [OF Suc.prems(1) k] by (auto dest: set_zip_leftD)
  have new2: "k \<notin> fst ` set (zip [0..<k] (take k NL))"
    by (auto dest: set_zip_leftD)
  have z1: "zip (take k NL) [0..<k] @ [(NL ! k, k)] = zip (take (Suc k) NL) [0..<Suc k]"
    using k by (simp add: take_Suc_conv_app_nth)
  have z2: "zip [0..<k] (take k NL) @ [(k, NL ! k)] = zip [0..<Suc k] (take (Suc k) NL)"
    using k by (simp add: take_Suc_conv_app_nth)
  have "index_nodes NL [k..<length NL] (zip (take k NL) [0..<k], zip [0..<k] (take k NL)) =
        index_nodes NL [Suc k..<length NL]
          (zip (take (Suc k) NL) [0..<Suc k], zip [0..<Suc k] (take (Suc k) NL))"
    using k by (simp add: upt_conv_Cons update_new [OF new1] update_new [OF new2] z1 z2
        del: upt_Suc)
  also have "\<dots> = (zip NL [0..<length NL], zip [0..<length NL] NL)"
    using Suc.hyps(1) [of "Suc k"] Suc.hyps(2) Suc.prems k by simp
  finally show ?case .
qed

lemma index_nodes_closed:
  "distinct NL \<Longrightarrow>
     index_nodes NL [0..<length NL] ([], []) = (zip NL [0..<length NL], zip [0..<length NL] NL)"
  using index_nodes_upt [of NL 0] by simp

lemma zip_lookup:
  assumes "distinct NL"
  shows "map_of (zip NL [0..<length NL]) x = Some i \<longleftrightarrow> i < length NL \<and> NL ! i = x"
proof
  assume "map_of (zip NL [0..<length NL]) x = Some i"
  then have "(x, i) \<in> set (zip NL [0..<length NL])" by (rule map_of_SomeD)
  then show "i < length NL \<and> NL ! i = x" by (auto simp: in_set_zip)
next
  assume "i < length NL \<and> NL ! i = x"
  then show "map_of (zip NL [0..<length NL]) x = Some i"
    using map_of_zip_nth [of NL "[0..<length NL]" i] assms by auto
qed

lemma zip_lookup_dom:
  "map_of (zip NL [0..<length NL]) x \<noteq> None \<longleftrightarrow> x \<in> set NL"
  by (simp add: map_of_zip_is_None [of NL "[0..<length NL]" x])

lemma dd_getitem_hit: "map_of d k = Some v \<Longrightarrow> dd_getitem dflt d k = (v, d)"
  by (simp add: dd_getitem_def)

lemma dd_getitem_val:
  "dd_getitem 0 d k = (v, d') \<Longrightarrow> v = dd_val d k \<and> dd_val d' = dd_val d"
  by (auto simp: dd_getitem_def dd_val_def fun_eq_iff map_add_def split: option.splits if_splits)

lemma dd_val_incr: "dd_val (dd_incr k d) k' = (if k' = k then dd_val d k + 1 else dd_val d k')"
  by (auto simp: dd_incr_def dd_getitem_def dd_val_def update_conv' map_add_def
      split: option.splits prod.splits)

lemma count_pass_closed:
  "\<forall>e\<in>set el. map_of n2i (nodeA e) \<noteq> None \<Longrightarrow>
     \<exists>cnt'. count_pass el (n2i, cnt) = (n2i, cnt') \<and>
       (\<forall>k. dd_val cnt' k =
          dd_val cnt k + length (filter (\<lambda>e. map_of n2i (nodeA e) = Some k) el))"
proof (induction el arbitrary: cnt)
  case Nil
  then show ?case by simp
next
  case (Cons e el)
  then obtain s where s: "map_of n2i (nodeA e) = Some s" by auto
  from Cons.IH [of "dd_incr s cnt"] Cons.prems
  obtain cnt' where c: "count_pass el (n2i, dd_incr s cnt) = (n2i, cnt')"
    and v: "\<And>k. dd_val cnt' k =
          dd_val (dd_incr s cnt) k + length (filter (\<lambda>e. map_of n2i (nodeA e) = Some k) el)"
    by auto
  show ?case
    using c v s by (auto simp: dd_getitem_hit dd_val_incr)
qed


lemma offset_pass_closed:
  "offset_pass ns (nt, n2i, cnt, i, offset, offs) = Inr (nt', n2i', cnt', i', offset', offs') \<Longrightarrow>
   \<forall>n\<in>set ns. map_of n2i n \<noteq> None \<Longrightarrow>
   n2i' = n2i \<and> length offs' = length offs \<and> (\<forall>k\<le>i. offs' ! k = offs ! k) \<and>
   (\<forall>k<length ns. offs' ! (i + 1 + k) =
      offset + sum_list (map (\<lambda>n. dd_val cnt (the (map_of n2i n))) (take (k + 1) ns)))"
proof (induction ns arbitrary: nt cnt i offset offs)
  case Nil
  then show ?case by simp
next
  case (Cons n ns)
  from Cons.prems(2) obtain s where s: "map_of n2i n = Some s" by auto
  obtain ne cnt1 where g: "dd_getitem 0 cnt s = (ne, cnt1)" by (cases "dd_getitem 0 cnt s")
  from dd_getitem_val [OF g] have ne: "ne = dd_val cnt s" and c1: "dd_val cnt1 = dd_val cnt"
    by simp_all
  from Cons.prems(1) obtain c cs where n: "n = c # cs" by (cases n) auto
  let ?offs1 = "offs[i + 1 := offset + ne]"
  from Cons.prems(1) have lt: "i + 1 < length offs"
    and rec: "offset_pass ns (dd_incr [c] nt, n2i, cnt1, i + 1, offset + ne, ?offs1) =
                Inr (nt', n2i', cnt', i', offset', offs')"
    by (auto simp: n dd_getitem_hit [OF s [unfolded n]] g ebind_def np_setitem_def split: if_splits)
  from Cons.prems(2) have dom: "\<forall>n\<in>set ns. map_of n2i n \<noteq> None" by simp
  from Cons.IH [OF rec dom] have a: "n2i' = n2i" and b: "length offs' = length offs"
    and keep: "\<And>k. k \<le> i + 1 \<Longrightarrow> offs' ! k = ?offs1 ! k"
    and rest: "\<And>k. k < length ns \<Longrightarrow> offs' ! (i + 1 + 1 + k) =
        offset + ne + sum_list (map (\<lambda>n. dd_val cnt (the (map_of n2i n))) (take (k + 1) ns))"
    by (simp_all add: c1)
  have old: "\<forall>k\<le>i. offs' ! k = offs ! k"
    using keep by simp
  have new: "offs' ! (i + 1 + k) =
      offset + sum_list (map (\<lambda>n. dd_val cnt (the (map_of n2i n))) (take (k + 1) (n # ns)))"
    if "k < length (n # ns)" for k
  proof (cases k)
    case 0
    then show ?thesis using keep [of "i + 1"] lt by (simp add: s ne)
  next
    case (Suc k')
    then show ?thesis using rest [of k'] that by (simp add: s ne)
  qed
  show ?case using a b old new by blast
qed

lemma fill_pass_closed:
  "fill_pass oor el (n2i, cur, off, j, et, ew) = Inr (n2i', cur', off', j', et', ew') \<Longrightarrow>
   \<forall>e\<in>set el. map_of n2i (nodeA e) \<noteq> None \<and> map_of n2i (nodeB e) \<noteq> None \<Longrightarrow>
   n2i' = n2i \<and> length et' = length et \<and> length ew' = length ew \<and>
   (\<forall>k<j. et' ! k = et ! k \<and> ew' ! k = ew ! k) \<and>
   (\<forall>k<length el. map_of n2i (nodeB (el ! k)) = Some (et' ! (j + k)) \<and>
                   int32_of_float oor (weight_of (el ! k)) = Inr (ew' ! (j + k)))"
proof (induction el arbitrary: cur off j et ew)
  case Nil
  then show ?case by simp
next
  case (Cons e el)
  from Cons.prems(2) obtain s d where s: "map_of n2i (nodeA e) = Some s"
    and d: "map_of n2i (nodeB e) = Some d" by auto
  obtain cur1 off1 where co:
    "(if int s \<noteq> cur then (int s, 0) else (cur, off + 1)) = (cur1, off1)"
    by (cases "int s \<noteq> cur") simp_all
  from Cons.prems(1) obtain v where lt: "j < length et" "j < length ew"
    and v: "int32_of_float oor (weight_of e) = Inr v"
    and rec: "fill_pass oor el (n2i, cur1, off1, j + 1, et[j := d], ew[j := v]) =
                Inr (n2i', cur', off', j', et', ew')"
    by (auto simp: dd_getitem_hit [OF s] dd_getitem_hit [OF d] co ebind_def np_setitem_def
        split: if_splits sum.splits)
  from Cons.prems(2) have dom: "\<forall>e\<in>set el. map_of n2i (nodeA e) \<noteq> None \<and> map_of n2i (nodeB e) \<noteq> None"
    by simp
  from Cons.IH [OF rec dom] have a: "n2i' = n2i" and b: "length et' = length et" "length ew' = length ew"
    and keep: "\<And>k. k < j + 1 \<Longrightarrow> et' ! k = (et[j := d]) ! k \<and> ew' ! k = (ew[j := v]) ! k"
    and rest: "\<And>k. k < length el \<Longrightarrow> map_of n2i (nodeB (el ! k)) = Some (et' ! (j + 1 + k)) \<and>
                   int32_of_float oor (weight_of (el ! k)) = Inr (ew' ! (j + 1 + k))"
    by simp_all
  have old: "\<forall>k<j. et' ! k = et ! k \<and> ew' ! k = ew ! k"
    using keep by simp
  have new: "map_of n2i (nodeB ((e # el) ! k)) = Some (et' ! (j + k)) \<and>
             int32_of_float oor (weight_of ((e # el) ! k)) = Inr (ew' ! (j + k))"
    if "k < length (e # el)" for k
  proof (cases k)
    case 0
    then show ?thesis using keep [of j] lt by (simp add: d v)
  next
    case (Suc k')
    then show ?thesis using rest [of k'] that by simp
  qed
  show ?case using a b old new by blast
qed

lemma sorted_partition:
  "sorted (map f xs) \<Longrightarrow> \<forall>x\<in>set xs. \<forall>y\<in>set xs. f x \<le> f y \<longrightarrow> P y \<longrightarrow> P x \<Longrightarrow>
     xs = filter P xs @ filter (\<lambda>x. \<not> P x) xs"
proof (induction xs)
  case Nil
  show ?case by simp
next
  case (Cons x xs)
  from Cons.prems have le: "\<forall>y\<in>set xs. f x \<le> f y" and so: "sorted (map f xs)" by simp_all
  from Cons.prems(2) have cl: "\<forall>x\<in>set xs. \<forall>y\<in>set xs. f x \<le> f y \<longrightarrow> P y \<longrightarrow> P x" by simp
  show ?case
  proof (cases "P x")
    case True
    then show ?thesis using Cons.IH [OF so cl] by simp
  next
    case False
    then have "\<forall>y\<in>set xs. \<not> P y" using le Cons.prems(2) by auto
    then have "filter P xs = []" "filter (\<lambda>x. \<not> P x) xs = xs" by (simp_all add: filter_empty_conv filter_id_conv)
    then show ?thesis using False by simp
  qed
qed

lemma sorted_prefix_pos:
  assumes "sorted (map f xs)"
    and "\<forall>x\<in>set xs. \<forall>y\<in>set xs. f x \<le> f y \<longrightarrow> P y \<longrightarrow> P x"
    and "j < length xs"
  shows "j < length (filter P xs) \<longleftrightarrow> P (xs ! j)"
proof -
  let ?A = "filter P xs" and ?B = "filter (\<lambda>x. \<not> P x) xs"
  have xs: "xs = ?A @ ?B" using assms(1,2) by (rule sorted_partition)
  have len: "length xs = length ?A + length ?B" by (subst xs) simp
  show ?thesis
  proof (cases "j < length ?A")
    case True
    then have "xs ! j = ?A ! j" by (subst xs) (simp add: nth_append)
    moreover have "?A ! j \<in> set ?A" using True by (rule nth_mem)
    ultimately show ?thesis using True by simp
  next
    case False
    then have "xs ! j = ?B ! (j - length ?A)" by (subst xs) (simp add: nth_append)
    moreover have "?B ! (j - length ?A) \<in> set ?B" using False assms(3) len by (intro nth_mem) simp
    ultimately show ?thesis using False by simp
  qed
qed

lemma take_closed:
  assumes "sorted NL" "distinct NL" "x \<in> set NL" "y \<in> set (take k NL)" "x \<le> y"
  shows "x \<in> set (take k NL)"
proof -
  from assms(4) obtain q where q: "q < k" "q < length NL" "NL ! q = y"
    by (auto simp: in_set_conv_nth)
  from assms(3) obtain p where p: "p < length NL" "NL ! p = x"
    by (auto simp: in_set_conv_nth)
  have "p \<le> q"
  proof (rule ccontr)
    assume "\<not> p \<le> q"
    then have "q < p" by simp
    then have "NL ! q \<le> NL ! p" using assms(1) p(1) by (simp add: sorted_nth_mono)
    then have "x = y" using assms(5) p q by simp
    then have "NL ! p = NL ! q" using p q by simp
    then have "p = q" using p(1) q(2) assms(2) by (simp add: nth_eq_iff_index_eq)
    with \<open>q < p\<close> show False by simp
  qed
  then have "p < k" using q(1) by simp
  then show ?thesis using p by (auto simp: in_set_conv_nth intro!: exI [of _ p])
qed

lemma count_sum:
  "distinct ns \<Longrightarrow>
     sum_list (map (\<lambda>n. length (filter (\<lambda>e. g e = n) xs)) ns) = length (filter (\<lambda>e. g e \<in> set ns) xs)"
proof (induction ns)
  case Nil
  show ?case by simp
next
  case (Cons n ns)
  have "length (filter (\<lambda>e. g e \<in> set (n # ns)) xs) =
        length (filter (\<lambda>e. g e = n) xs) + length (filter (\<lambda>e. g e \<in> set ns) xs)"
    using Cons.prems by (induction xs) auto
  then show ?case using Cons by simp
qed


lemma count_at_index:
  assumes "distinct NL" "n \<in> set NL"
    and cnt: "\<And>k. dd_val cnt k =
                length (filter (\<lambda>e. map_of (zip NL [0..<length NL]) (nodeA e) = Some k) EL)"
  shows "dd_val cnt (the (map_of (zip NL [0..<length NL]) n)) =
           length (filter (\<lambda>e. nodeA e = n) EL)"
proof -
  from assms(2) obtain i where i: "i < length NL" "NL ! i = n"
    by (auto simp: in_set_conv_nth)
  then have look: "map_of (zip NL [0..<length NL]) n = Some i"
    using zip_lookup [OF assms(1)] by simp
  have "(map_of (zip NL [0..<length NL]) (nodeA e) = Some i) = (nodeA e = n)" for e
    using zip_lookup [OF assms(1), of "nodeA e" i] i by auto
  then show ?thesis by (simp add: look cnt)
qed

lemma construct_layout:
  assumes c: "construct oor (ns, es, et) = Inr g"
    and d: "distinct ns"
    and ends: "\<forall>e\<in>set es. nodeA e \<in> set ns \<and> nodeB e \<in> set ns"
  shows "layout oor (sort ns) (sort_key Edge_key es) g"
proof -
  let ?NL = "sort ns" and ?EL = "sort_key Edge_key es"
  let ?Z = "zip ?NL [0..<length ns]"
  let ?m = "length es"
  have dNL: "distinct ?NL" using d by simp
  have domA: "\<forall>e\<in>set ?EL. map_of ?Z (nodeA e) \<noteq> None"
    and domAB: "\<forall>e\<in>set ?EL. map_of ?Z (nodeA e) \<noteq> None \<and> map_of ?Z (nodeB e) \<noteq> None"
    and domN: "\<forall>n\<in>set ?NL. map_of ?Z n \<noteq> None"
    using ends zip_lookup_dom [of ?NL] by simp_all
  from count_pass_closed [OF domA, of "[]"] obtain cnt where
    cp: "count_pass ?EL (?Z, []) = (?Z, cnt)"
    and cnt: "\<And>k. dd_val cnt k = length (filter (\<lambda>e. map_of ?Z (nodeA e) = Some k) ?EL)"
    by (auto simp: dd_val_def)
  have ix: "index_nodes ?NL [0..<length ns] ([], []) = (?Z, zip [0..<length ns] ?NL)"
    using index_nodes_closed [OF dNL] by simp
  from c obtain nt n2i2 cnt1 i off offs n2i3 cur off1 j et1 ew1 where
    op: "offset_pass ?NL ([], ?Z, cnt, 0, 0, 0 # replicate (length ns) 0) =
           Inr (nt, n2i2, cnt1, i, off, offs)"
    and fp: "fill_pass oor ?EL (n2i2, - 1, 0, 0, replicate ?m 0, replicate ?m 0) =
           Inr (n2i3, cur, off1, j, et1, ew1)"
    and g: "g = \<lparr>edgetype2count_dictionary = et, nodetype2count_dictionary = nt,
                 node_to_index_map = n2i3, index_to_node_map = zip [0..<length ns] ?NL,
                 edge_to = et1, edge_weight = ew1, offset_to_edge = offs\<rparr>"
    unfolding construct_def Let_def
    by (auto simp: ix cp ebind_def np_setitem_def split: sum.splits prod.splits)
  from offset_pass_closed [OF op domN] have n2: "n2i2 = ?Z" and lo: "length offs = length ns + 1"
    and o0: "offs ! 0 = 0"
    and ok: "\<And>k. k < length ns \<Longrightarrow> offs ! (k + 1) =
        sum_list (map (\<lambda>n. dd_val cnt (the (map_of ?Z n))) (take (k + 1) ?NL))"
    by simp_all
  from fill_pass_closed [OF fp [unfolded n2] domAB] have n3: "n2i3 = ?Z"
    and le: "length et1 = ?m" "length ew1 = ?m"
    and cells: "\<And>k. k < ?m \<Longrightarrow> map_of ?Z (nodeB (?EL ! k)) = Some (et1 ! k) \<and>
                   int32_of_float oor (weight_of (?EL ! k)) = Inr (ew1 ! k)"
    by simp_all
  have offs: "offs ! k = length (filter (\<lambda>e. nodeA e \<in> set (take k ?NL)) ?EL)"
    if "k \<le> length ns" for k
  proof (cases k)
    case 0
    then show ?thesis using o0 by simp
  next
    case (Suc k')
    then have k': "k' < length ns" using that by simp
    have "map (\<lambda>n. dd_val cnt (the (map_of ?Z n))) (take (k' + 1) ?NL) =
          map (\<lambda>n. length (filter (\<lambda>e. nodeA e = n) ?EL)) (take (k' + 1) ?NL)"
    proof (rule map_cong [OF refl])
      fix n assume "n \<in> set (take (k' + 1) ?NL)"
      then have "n \<in> set ?NL" by (rule in_set_takeD)
      from count_at_index [OF dNL this, of cnt ?EL] cnt
      show "dd_val cnt (the (map_of ?Z n)) = length (filter (\<lambda>e. nodeA e = n) ?EL)" by simp
    qed
    moreover have "distinct (take (k' + 1) ?NL)" using dNL by (rule distinct_take)
    ultimately show ?thesis
      using ok [OF k'] Suc by (simp only: count_sum) simp
  qed
  show ?thesis
    unfolding layout_def using g n3 le cells lo offs by simp
qed


subsection \<open>The layout and the query methods\<close>

lemma layout_n2i: "layout oor NL EL g \<Longrightarrow> node_to_index_map g = zip NL [0..<length NL]"
  unfolding layout_def by (elim conjE)

lemma layout_i2n: "layout oor NL EL g \<Longrightarrow> index_to_node_map g = zip [0..<length NL] NL"
  unfolding layout_def by (elim conjE)

lemma layout_lengths:
  "layout oor NL EL g \<Longrightarrow>
     length (edge_to g) = length EL \<and> length (edge_weight g) = length EL \<and>
     length (offset_to_edge g) = length NL + 1"
  unfolding layout_def by (elim conjE) (intro conjI)

lemma layout_cell_to:
  "layout oor NL EL g \<Longrightarrow> k < length EL \<Longrightarrow>
     map_of (zip NL [0..<length NL]) (nodeB (EL ! k)) = Some (edge_to g ! k)"
  unfolding layout_def by blast

lemma layout_cell_weight:
  "layout oor NL EL g \<Longrightarrow> k < length EL \<Longrightarrow>
     int32_of_float oor (weight_of (EL ! k)) = Inr (edge_weight g ! k)"
  unfolding layout_def by blast

lemma layout_offset:
  "layout oor NL EL g \<Longrightarrow> k \<le> length NL \<Longrightarrow>
     offset_to_edge g ! k = length (filter (\<lambda>e. nodeA e \<in> set (take k NL)) EL)"
  unfolding layout_def by blast

lemma layout_offsets_mono:
  assumes "layout oor NL EL g" "i \<le> j" "j \<le> length NL"
  shows "offset_to_edge g ! i \<le> offset_to_edge g ! j"
proof -
  have "set (take i NL) \<subseteq> set (take j NL)" using assms(2) by (rule set_take_subset_set_take)
  then have "length (filter (\<lambda>e. nodeA e \<in> set (take i NL)) EL) \<le>
             length (filter (\<lambda>e. nodeA e \<in> set (take j NL)) EL)"
    by (induction EL) auto
  then show ?thesis using assms by (simp add: layout_offset)
qed

lemma layout_offset_last:
  assumes "layout oor NL EL g" "graph_lists NL EL"
  shows "offset_to_edge g ! length NL = length EL"
proof -
  have "filter (\<lambda>e. nodeA e \<in> set NL) EL = EL"
    using assms(2) by (simp add: graph_lists_def filter_id_conv)
  then show ?thesis using layout_offset [OF assms(1) order_refl] by simp
qed

lemma layout_offset_le:
  assumes "layout oor NL EL g" "graph_lists NL EL" "k \<le> length NL"
  shows "offset_to_edge g ! k \<le> length EL"
  using layout_offsets_mono [OF assms(1) assms(3) order_refl] layout_offset_last [OF assms(1,2)]
  by simp

lemma sorted_nodeA:
  assumes "sorted (map Edge_key EL)"
  shows "sorted (map nodeA EL)"
proof -
  have "sorted_wrt (\<lambda>x y. Edge_key x \<le> Edge_key y) EL"
    using assms by (simp add: sorted_map)
  then have "sorted_wrt (\<lambda>x y. nodeA x \<le> nodeA y) EL"
    by (rule sorted_wrt_mono_rel [rotated]) (auto simp: Edge_key_def less_eq_prod_def)
  then show ?thesis by (simp add: sorted_map)
qed

lemma position_below_offset:
  assumes lay: "layout oor NL EL g" and gl: "graph_lists NL EL"
    and k: "k \<le> length NL" and j: "j < length EL"
  shows "j < offset_to_edge g ! k \<longleftrightarrow> nodeA (EL ! j) \<in> set (take k NL)"
proof -
  have so: "sorted (map nodeA EL)" using gl by (simp add: graph_lists_def sorted_nodeA)
  have cl: "\<forall>x\<in>set EL. \<forall>y\<in>set EL. nodeA x \<le> nodeA y \<longrightarrow>
              nodeA y \<in> set (take k NL) \<longrightarrow> nodeA x \<in> set (take k NL)"
    using gl take_closed [of NL _ _ k] by (auto simp: graph_lists_def)
  have "offset_to_edge g ! k = length (filter (\<lambda>e. nodeA e \<in> set (take k NL)) EL)"
    using lay k by (rule layout_offset)
  then show ?thesis
    using sorted_prefix_pos [OF so cl j] by simp
qed

lemma in_block_iff:
  assumes lay: "layout oor NL EL g" and gl: "graph_lists NL EL" and s: "s < length NL"
  shows "(offset_to_edge g ! s \<le> j \<and> j < offset_to_edge g ! (s + 1)) \<longleftrightarrow>
         (j < length EL \<and> nodeA (EL ! j) = NL ! s)"
proof -
  have d: "distinct NL" using gl by (simp add: graph_lists_def)
  have tk: "set (take (s + 1) NL) = insert (NL ! s) (set (take s NL))"
    using s by (simp add: take_Suc_conv_app_nth)
  have notin: "NL ! s \<notin> set (take s NL)" using d s by (rule nth_notin_take)
  have le: "offset_to_edge g ! (s + 1) \<le> length EL"
    using layout_offset_le [OF lay gl, of "s + 1"] s by simp
  show ?thesis
  proof (cases "j < length EL")
    case True
    have a: "j < offset_to_edge g ! s \<longleftrightarrow> nodeA (EL ! j) \<in> set (take s NL)"
      using position_below_offset [OF lay gl _ True, of s] s by simp
    have b: "j < offset_to_edge g ! (s + 1) \<longleftrightarrow> nodeA (EL ! j) \<in> set (take (s + 1) NL)"
      using position_below_offset [OF lay gl _ True, of "s + 1"] s by simp
    show ?thesis using a b tk notin True by auto
  next
    case False
    then show ?thesis using le by simp
  qed
qed

lemma key_at_unique:
  assumes gl: "graph_lists NL EL" and "i < length EL" "j < length EL"
    and "Edge_key (EL ! i) = Edge_key (EL ! j)"
  shows "i = j"
proof -
  have "distinct (map Edge_key EL)" using gl by (simp add: graph_lists_def)
  moreover have "map Edge_key EL ! i = map Edge_key EL ! j" using assms by simp
  ultimately show ?thesis using assms(2,3) by (simp add: nth_eq_iff_index_eq del: nth_map)
qed

lemma block_range_layout:
  assumes lay: "layout oor NL EL g" and s: "s < length NL"
  shows "block_range g s = Inr [offset_to_edge g ! s..<offset_to_edge g ! (s + 1)]"
  using layout_lengths [OF lay] s by (simp add: block_range_def np_getitem_def ebind_def)

lemma has_edge_scan_eq:
  "\<forall>i\<in>set is. i < length (edge_to g) \<Longrightarrow>
     has_edge_scan g d is = Inr (\<exists>i\<in>set is. edge_to g ! i = d)"
  by (induction "is") (auto simp: np_getitem_def ebind_def)

lemma weight_scan_eq:
  "\<forall>i\<in>set is. i < length (edge_to g) \<and> i < length (edge_weight g) \<Longrightarrow>
     weight_scan g d is =
       (case find (\<lambda>i. edge_to g ! i = d) is of
          None \<Rightarrow> Inl TypeError
        | Some i \<Rightarrow> Inr (edge_weight g ! i))"
  by (induction "is") (auto simp: np_getitem_def ebind_def)

lemma lookup_known:
  assumes lay: "layout oor NL EL g" and gl: "graph_lists NL EL" and s: "s < length NL"
  shows "dd_getitem 0 (node_to_index_map g) (NL ! s) = (s, node_to_index_map g)"
proof -
  have "distinct NL" using gl by (simp add: graph_lists_def)
  then have "map_of (zip NL [0..<length NL]) (NL ! s) = Some s"
    using zip_lookup [of NL "NL ! s" s] s by simp
  then show ?thesis by (simp add: layout_n2i [OF lay] dd_getitem_hit)
qed

lemma cell_dest:
  assumes lay: "layout oor NL EL g" and gl: "graph_lists NL EL" and j: "j < length EL"
  shows "edge_to g ! j < length NL \<and> NL ! (edge_to g ! j) = nodeB (EL ! j)"
proof -
  have "distinct NL" using gl by (simp add: graph_lists_def)
  from zip_lookup [OF this, of "nodeB (EL ! j)" "edge_to g ! j"] layout_cell_to [OF lay j]
  show ?thesis by simp
qed

lemma find_SomeD: "find P xs = Some x \<Longrightarrow> x \<in> set xs \<and> P x"
  by (induction xs) (auto split: if_splits)

lemma slice_map_nth:
  "hi \<le> length xs \<Longrightarrow> take (hi - lo) (drop lo xs) = map ((!) xs) [lo..<hi]"
proof (rule nth_equalityI)
  assume h: "hi \<le> length xs"
  show "length (take (hi - lo) (drop lo xs)) = length (map ((!) xs) [lo..<hi])"
    using h by simp
  fix i assume "i < length (take (hi - lo) (drop lo xs))"
  then have i: "i < hi - lo" by simp
  then have "lo + i < length xs" using h by simp
  then show "take (hi - lo) (drop lo xs) ! i = map ((!) xs) [lo..<hi] ! i"
    using i by (simp add: nth_map_upt)
qed

lemma dest_index_iff:
  assumes lay: "layout oor NL EL g" and gl: "graph_lists NL EL"
    and j: "j < length EL" and t: "t < length NL"
  shows "edge_to g ! j = t \<longleftrightarrow> nodeB (EL ! j) = NL ! t"
proof -
  have d: "distinct NL" using gl by (simp add: graph_lists_def)
  from cell_dest [OF lay gl j] have c: "edge_to g ! j < length NL"
    "NL ! (edge_to g ! j) = nodeB (EL ! j)" by simp_all
  show ?thesis
    using c t d by (auto simp: nth_eq_iff_index_eq)
qed

lemma block_hits:
  assumes lay: "layout oor NL EL g" and gl: "graph_lists NL EL"
    and s: "s < length NL" and t: "t < length NL"
  shows "(\<exists>i\<in>set [offset_to_edge g ! s..<offset_to_edge g ! (s + 1)]. edge_to g ! i = t) \<longleftrightarrow>
         (NL ! s, NL ! t) \<in> Edge_key ` set EL"
proof
  assume "\<exists>i\<in>set [offset_to_edge g ! s..<offset_to_edge g ! (s + 1)]. edge_to g ! i = t"
  then obtain i where i: "offset_to_edge g ! s \<le> i" "i < offset_to_edge g ! (s + 1)"
    and e: "edge_to g ! i = t" by auto
  from in_block_iff [OF lay gl s, of i] i have il: "i < length EL" and a: "nodeA (EL ! i) = NL ! s"
    by simp_all
  from dest_index_iff [OF lay gl il t] e have "nodeB (EL ! i) = NL ! t" by simp
  with a have "Edge_key (EL ! i) = (NL ! s, NL ! t)" by (simp add: Edge_key_def)
  moreover have "EL ! i \<in> set EL" using il by (rule nth_mem)
  ultimately show "(NL ! s, NL ! t) \<in> Edge_key ` set EL" by (metis imageI)
next
  assume "(NL ! s, NL ! t) \<in> Edge_key ` set EL"
  then obtain i where il: "i < length EL" and k: "Edge_key (EL ! i) = (NL ! s, NL ! t)"
    by (auto simp: in_set_conv_nth)
  then have a: "nodeA (EL ! i) = NL ! s" and b: "nodeB (EL ! i) = NL ! t"
    by (simp_all add: Edge_key_def)
  from in_block_iff [OF lay gl s, of i] il a
  have "offset_to_edge g ! s \<le> i" "i < offset_to_edge g ! (s + 1)" by simp_all
  moreover from dest_index_iff [OF lay gl il t] b have "edge_to g ! i = t" by simp
  ultimately show "\<exists>i\<in>set [offset_to_edge g ! s..<offset_to_edge g ! (s + 1)]. edge_to g ! i = t"
    by auto
qed

lemma block_in_range:
  assumes lay: "layout oor NL EL g" and gl: "graph_lists NL EL" and s: "s < length NL"
  shows "\<forall>i\<in>set [offset_to_edge g ! s..<offset_to_edge g ! (s + 1)].
           i < length EL \<and> i < length (edge_to g) \<and> i < length (edge_weight g)"
proof -
  have "offset_to_edge g ! (s + 1) \<le> length EL"
    using layout_offset_le [OF lay gl, of "s + 1"] s by simp
  then show ?thesis using layout_lengths [OF lay] by auto
qed

lemma has_edge_known:
  assumes lay: "layout oor NL EL g" and gl: "graph_lists NL EL"
    and s: "s < length NL" and t: "t < length NL"
  shows "has_edge g (NL ! s) (NL ! t) = (Inr ((NL ! s, NL ! t) \<in> Edge_key ` set EL), g)"
proof -
  have "has_edge g (NL ! s) (NL ! t) =
        (has_edge_scan g t [offset_to_edge g ! s..<offset_to_edge g ! (s + 1)], g)"
    by (simp add: has_edge_def lookup_known [OF lay gl s] lookup_known [OF lay gl t]
        block_range_layout [OF lay s] ebind_def)
  also have "has_edge_scan g t [offset_to_edge g ! s..<offset_to_edge g ! (s + 1)] =
        Inr (\<exists>i\<in>set [offset_to_edge g ! s..<offset_to_edge g ! (s + 1)]. edge_to g ! i = t)"
    using block_in_range [OF lay gl s] by (intro has_edge_scan_eq) blast
  finally show ?thesis by (simp only: block_hits [OF lay gl s t])
qed

lemma node_position: "x \<in> set NL \<Longrightarrow> \<exists>s<length NL. x = NL ! s"
  by (metis in_set_conv_nth)

lemma weight_known:
  assumes lay: "layout oor NL EL g" and gl: "graph_lists NL EL" and e: "e \<in> set EL"
  shows "\<exists>v. int32_of_float oor (weight_of e) = Inr v \<and>
             weight g (nodeA e) (nodeB e) = (Inr v, g)"
proof -
  from e obtain j where j: "j < length EL" and ej: "e = EL ! j" by (metis in_set_conv_nth)
  from gl e have "nodeA e \<in> set NL" "nodeB e \<in> set NL" by (simp_all add: graph_lists_def)
  then obtain s t where s: "s < length NL" and es: "nodeA e = NL ! s"
    and t: "t < length NL" and et: "nodeB e = NL ! t"
    using node_position by metis
  let ?is = "[offset_to_edge g ! s..<offset_to_edge g ! (s + 1)]"
  have w: "weight g (NL ! s) (NL ! t) = (weight_scan g t ?is, g)"
    by (simp add: weight_def lookup_known [OF lay gl s] lookup_known [OF lay gl t]
        block_range_layout [OF lay s] ebind_def)
  have rng: "\<forall>i\<in>set ?is. i < length (edge_to g) \<and> i < length (edge_weight g)"
    using block_in_range [OF lay gl s] by blast
  have "Edge_key e = (NL ! s, NL ! t)" by (simp add: Edge_key_def es et)
  then have "(NL ! s, NL ! t) \<in> Edge_key ` set EL" using e by (metis imageI)
  then have "\<exists>i\<in>set ?is. edge_to g ! i = t"
    by (simp only: block_hits [OF lay gl s t])
  then have "find (\<lambda>i. edge_to g ! i = t) ?is \<noteq> None"
    by (simp only: find_None_iff) blast
  then obtain i where f: "find (\<lambda>i. edge_to g ! i = t) ?is = Some i" by blast
  from find_SomeD [OF f] have ib: "offset_to_edge g ! s \<le> i" "i < offset_to_edge g ! (s + 1)"
    and it: "edge_to g ! i = t" by simp_all
  from in_block_iff [OF lay gl s, of i] ib have il: "i < length EL"
    and a: "nodeA (EL ! i) = NL ! s" by blast+
  from dest_index_iff [OF lay gl il t] it have b: "nodeB (EL ! i) = NL ! t" by blast
  have "Edge_key (EL ! i) = Edge_key (EL ! j)"
    unfolding Edge_key_def a b ej [symmetric] es et ..
  from key_at_unique [OF gl il j this] have ij: "i = j" .
  have "weight_scan g t ?is = Inr (edge_weight g ! j)"
    unfolding weight_scan_eq [OF rng, of t] f ij by simp
  moreover have "int32_of_float oor (weight_of e) = Inr (edge_weight g ! j)"
    unfolding ej by (rule layout_cell_weight [OF lay j])
  ultimately show ?thesis unfolding es et w by blast
qed

lemma weight_missing:
  assumes lay: "layout oor NL EL g" and gl: "graph_lists NL EL"
    and s: "s < length NL" and t: "t < length NL"
    and no: "(NL ! s, NL ! t) \<notin> Edge_key ` set EL"
  shows "weight g (NL ! s) (NL ! t) = (Inl TypeError, g)"
proof -
  let ?is = "[offset_to_edge g ! s..<offset_to_edge g ! (s + 1)]"
  have w: "weight g (NL ! s) (NL ! t) = (weight_scan g t ?is, g)"
    by (simp add: weight_def lookup_known [OF lay gl s] lookup_known [OF lay gl t]
        block_range_layout [OF lay s] ebind_def)
  have rng: "\<forall>i\<in>set ?is. i < length (edge_to g) \<and> i < length (edge_weight g)"
    using block_in_range [OF lay gl s] by blast
  have "\<not> (\<exists>i\<in>set ?is. edge_to g ! i = t)"
    using block_hits [OF lay gl s t] no by simp
  then have "find (\<lambda>i. edge_to g ! i = t) ?is = None"
    by (simp add: find_None_iff)
  then show ?thesis using weight_scan_eq [OF rng, of t] w by simp
qed


lemma zip_lookup_index:
  "k < length NL \<Longrightarrow> map_of (zip [0..<length NL] NL) k = Some (NL ! k)"
  using map_of_zip_nth [of "[0..<length NL]" NL k] by simp

lemma neighbors_scan_eq:
  "\<forall>i\<in>set is. i < length et \<and> map_of i2n (et ! i) = Some (f i) \<Longrightarrow>
     neighbors_scan et is i2n nbrs = (Inr (nbrs @ map f is), i2n)"
  by (induction "is" arbitrary: nbrs) (simp_all add: np_getitem_def dd_getitem_hit)

lemma block_labels:
  assumes lay: "layout oor NL EL g" and gl: "graph_lists NL EL" and s: "s < length NL"
  shows "\<forall>i\<in>set [offset_to_edge g ! s..<offset_to_edge g ! (s + 1)].
           i < length (edge_to g) \<and>
           map_of (index_to_node_map g) (edge_to g ! i) = Some (nodeB (EL ! i))"
proof
  fix i assume "i \<in> set [offset_to_edge g ! s..<offset_to_edge g ! (s + 1)]"
  with block_in_range [OF lay gl s] have il: "i < length EL" and it: "i < length (edge_to g)"
    by blast+
  from cell_dest [OF lay gl il] zip_lookup_index [of "edge_to g ! i" NL]
  have "map_of (zip [0..<length NL] NL) (edge_to g ! i) = Some (nodeB (EL ! i))" by simp
  then show "i < length (edge_to g) \<and>
           map_of (index_to_node_map g) (edge_to g ! i) = Some (nodeB (EL ! i))"
    using it by (simp only: layout_i2n [OF lay] simp_thms)
qed

lemma neighbors_known:
  assumes lay: "layout oor NL EL g" and gl: "graph_lists NL EL" and s: "s < length NL"
  shows "neighbors g (NL ! s) =
           (Inr (map (\<lambda>i. nodeB (EL ! i)) [offset_to_edge g ! s..<offset_to_edge g ! (s + 1)]), g)"
proof -
  let ?is = "[offset_to_edge g ! s..<offset_to_edge g ! (s + 1)]"
  have sc: "neighbors_scan (edge_to g) ?is (index_to_node_map g) [] =
          (Inr (map (\<lambda>i. nodeB (EL ! i)) ?is), index_to_node_map g)"
    using neighbors_scan_eq [OF block_labels [OF lay gl s], of "[]"] by simp
  show ?thesis
    using sc
    by (simp add: neighbors_def lookup_known [OF lay gl s] block_range_layout [OF lay s])
qed

lemma block_distinct:
  assumes lay: "layout oor NL EL g" and gl: "graph_lists NL EL" and s: "s < length NL"
  shows "distinct (block g (edge_to g) s)"
proof -
  let ?lo = "offset_to_edge g ! s" and ?hi = "offset_to_edge g ! (s + 1)"
  have hi: "?hi \<le> length (edge_to g)"
    using layout_offset_le [OF lay gl, of "s + 1"] s layout_lengths [OF lay] by simp
  have inj: "inj_on ((!) (edge_to g)) (set [?lo..<?hi])"
  proof (rule inj_onI)
    fix i j assume i: "i \<in> set [?lo..<?hi]" and j: "j \<in> set [?lo..<?hi]"
      and eq: "edge_to g ! i = edge_to g ! j"
    from in_block_iff [OF lay gl s, of i] i have il: "i < length EL"
      and ia: "nodeA (EL ! i) = NL ! s" by simp_all
    from in_block_iff [OF lay gl s, of j] j have jl: "j < length EL"
      and ja: "nodeA (EL ! j) = NL ! s" by simp_all
    from cell_dest [OF lay gl il] cell_dest [OF lay gl jl] eq
    have "nodeB (EL ! i) = nodeB (EL ! j)" by metis
    then have "Edge_key (EL ! i) = Edge_key (EL ! j)"
      unfolding Edge_key_def ia ja by simp
    from key_at_unique [OF gl il jl this] show "i = j" .
  qed
  have "block g (edge_to g) s = map ((!) (edge_to g)) [?lo..<?hi]"
    unfolding block_def by (rule slice_map_nth [OF hi])
  then show ?thesis using inj by (simp add: distinct_map)
qed

lemma distinct_count_le: "distinct xs \<Longrightarrow> count_list xs x \<le> 1"
  by (induction xs) (auto simp: count_list_0_iff)

subsection \<open>From the file to the layout\<close>

lemma edges_block_eq:
  "\<forall>j\<in>set js. j < length et \<and> map_of i2n (et ! j) = Some (f j) \<Longrightarrow>
     edges_block et src js i2n acc = (Inr (acc @ map (\<lambda>j. (src, f j)) js), i2n)"
  by (induction js arbitrary: acc) (simp_all add: np_getitem_def dd_getitem_hit)

lemma block_keys:
  assumes lay: "layout oor NL EL g" and gl: "graph_lists NL EL" and s: "s < length NL"
  shows "map Edge_key (take (offset_to_edge g ! s) EL) @
           map (\<lambda>j. (NL ! s, nodeB (EL ! j))) [offset_to_edge g ! s..<offset_to_edge g ! (s + 1)] =
         map Edge_key (take (offset_to_edge g ! (s + 1)) EL)"
proof -
  let ?lo = "offset_to_edge g ! s" and ?hi = "offset_to_edge g ! (s + 1)"
  have lohi: "?lo \<le> ?hi" using layout_offsets_mono [OF lay, of s "s + 1"] s by simp
  have hi: "?hi \<le> length EL" using layout_offset_le [OF lay gl, of "s + 1"] s by simp
  have "map (\<lambda>j. (NL ! s, nodeB (EL ! j))) [?lo..<?hi] = map (\<lambda>j. Edge_key (EL ! j)) [?lo..<?hi]"
  proof (rule map_cong [OF refl])
    fix j assume "j \<in> set [?lo..<?hi]"
    with in_block_iff [OF lay gl s, of j] have "nodeA (EL ! j) = NL ! s" by simp
    then show "(NL ! s, nodeB (EL ! j)) = Edge_key (EL ! j)" by (simp add: Edge_key_def)
  qed
  also have "\<dots> = map Edge_key (map ((!) EL) [?lo..<?hi])" by simp
  also have "\<dots> = map Edge_key (take (?hi - ?lo) (drop ?lo EL))"
    by (simp only: slice_map_nth [OF hi])
  finally have "map Edge_key (take ?lo EL) @ map (\<lambda>j. (NL ! s, nodeB (EL ! j))) [?lo..<?hi] =
      map Edge_key (take ?lo EL @ take (?hi - ?lo) (drop ?lo EL))" by simp
  also have "take ?lo EL @ take (?hi - ?lo) (drop ?lo EL) = take ?hi EL"
    using take_add [of ?lo "?hi - ?lo" EL] lohi by simp
  finally show ?thesis .
qed

lemma edges_loop_eq:
  assumes lay: "layout oor NL EL g" and gl: "graph_lists NL EL"
  shows "k \<le> length NL \<Longrightarrow>
     edges_loop g [k..<length NL] (index_to_node_map g)
       (map Edge_key (take (offset_to_edge g ! k) EL)) =
     (Inr (map Edge_key EL), index_to_node_map g)"
proof (induction "length NL - k" arbitrary: k)
  case 0
  then have "k = length NL" by simp
  then show ?case using layout_offset_last [OF lay gl] by simp
next
  case (Suc d)
  then have k: "k < length NL" by simp
  let ?is = "[offset_to_edge g ! k..<offset_to_edge g ! (k + 1)]"
  have src: "dd_getitem [] (index_to_node_map g) k = (NL ! k, index_to_node_map g)"
    using zip_lookup_index [OF k] by (simp add: layout_i2n [OF lay] dd_getitem_hit)
  have blk: "edges_block (edge_to g) (NL ! k) ?is (index_to_node_map g)
               (map Edge_key (take (offset_to_edge g ! k) EL)) =
             (Inr (map Edge_key (take (offset_to_edge g ! (k + 1)) EL)), index_to_node_map g)"
    using edges_block_eq [OF block_labels [OF lay gl k]] block_keys [OF lay gl k] by simp
  have rec: "edges_loop g [Suc k..<length NL] (index_to_node_map g)
       (map Edge_key (take (offset_to_edge g ! (k + 1)) EL)) =
     (Inr (map Edge_key EL), index_to_node_map g)"
    using Suc.hyps(1) [of "Suc k"] Suc.hyps(2) k by simp
  have "[k..<length NL] = k # [Suc k..<length NL]" using k by (rule upt_conv_Cons)
  then show ?case
    using blk rec by (simp add: src block_range_layout [OF lay k])
qed

lemma edges_known:
  assumes lay: "layout oor NL EL g" and gl: "graph_lists NL EL"
  shows "edges g = (Inr (map Edge_key EL), g)"
proof -
  have "offset_to_edge g ! 0 = 0" using layout_offset [OF lay, of 0] by simp
  then have "edges_loop g [0..<length NL] (index_to_node_map g) [] =
      (Inr (map Edge_key EL), index_to_node_map g)"
    using edges_loop_eq [OF lay gl, of 0] by simp
  then show ?thesis using layout_lengths [OF lay] by (simp add: edges_def)
qed

lemma build_construct:
  assumes "build env lines = Inr g"
  shows "\<exists>et. construct (int32_out_of_range env)
           (foldl add_triple_nodes [] (accepted (py_float env) lines),
            foldl add_triple_edges [] (accepted (py_float env) lines), et) = Inr g"
proof -
  from read_lines_folds [of "py_float env" lines "[]" "[]" "[]"] obtain et where
    "read_lines (py_float env) lines ([], [], []) =
       Inr (foldl add_triple_nodes [] (accepted (py_float env) lines),
            foldl add_triple_edges [] (accepted (py_float env) lines), et)" by blast
  with assms show ?thesis by (auto simp: build_def ebind_def)
qed

lemma pair_keys_ends:
  "(a, b) \<in> pair_keys acc \<Longrightarrow>
     a \<in> (\<Union>t\<in>set acc. {fst t, fst (snd t)}) \<and> b \<in> (\<Union>t\<in>set acc. {fst t, fst (snd t)})"
  unfolding pair_keys_def by blast

lemma graph_lists_of: "graph_lists (node_list_of acc) (edge_list_of acc)"
proof -
  let ?ns = "foldl add_triple_nodes [] acc" and ?es = "foldl add_triple_edges [] acc"
  from nodes_fold [of "[]" acc] have dn: "distinct ?ns"
    and sn: "set ?ns = (\<Union>t\<in>set acc. {fst t, fst (snd t)})" by simp_all
  from edges_fold_inv [of acc] have de: "distinct (map Edge_key ?es)"
    and ke: "Edge_key ` set ?es = pair_keys acc" by blast+
  have d2: "distinct (map Edge_key (sort_key Edge_key ?es))"
    using de by (simp add: distinct_map)
  have ends: "\<forall>e\<in>set (sort_key Edge_key ?es). nodeA e \<in> set (sort ?ns) \<and> nodeB e \<in> set (sort ?ns)"
  proof
    fix e assume "e \<in> set (sort_key Edge_key ?es)"
    then have "e \<in> set ?es" by simp
    then have "Edge_key e \<in> Edge_key ` set ?es" by (rule imageI)
    then have "(nodeA e, nodeB e) \<in> pair_keys acc" unfolding ke by (simp add: Edge_key_def)
    from pair_keys_ends [OF this] show "nodeA e \<in> set (sort ?ns) \<and> nodeB e \<in> set (sort ?ns)"
      unfolding set_sort sn .
  qed
  have s1: "sorted (sort ?ns)" by (rule sorted_sort)
  have s2: "sorted (map Edge_key (sort_key Edge_key ?es))" by (rule sorted_sort_key)
  have d1: "distinct (sort ?ns)" using dn by simp
  show ?thesis
    unfolding graph_lists_def node_list_of_def edge_list_of_def
    using s1 d1 s2 d2 ends by (intro conjI)
qed

lemma build_layout:
  assumes "build env lines = Inr g"
  shows "layout (int32_out_of_range env)
           (node_list_of (accepted (py_float env) lines))
           (edge_list_of (accepted (py_float env) lines)) g"
proof -
  let ?acc = "accepted (py_float env) lines"
  let ?ns = "foldl add_triple_nodes [] ?acc" and ?es = "foldl add_triple_edges [] ?acc"
  from build_construct [OF assms] obtain et where
    c: "construct (int32_out_of_range env) (?ns, ?es, et) = Inr g" by blast
  from nodes_fold [of "[]" ?acc] have dn: "distinct ?ns" by simp
  have ends: "\<forall>e\<in>set ?es. nodeA e \<in> set ?ns \<and> nodeB e \<in> set ?ns"
    using graph_lists_of [of ?acc]
    by (simp add: graph_lists_def node_list_of_def edge_list_of_def)
  from construct_layout [OF c dn ends] show ?thesis
    by (simp only: node_list_of_def edge_list_of_def)
qed

lemma node_list_set:
  "set (node_list_of acc) = (\<Union>t\<in>set acc. {fst t, fst (snd t)})"
  using nodes_fold [of "[]" acc] by (simp add: node_list_of_def)

lemma edge_list_keys: "Edge_key ` set (edge_list_of acc) = pair_keys acc"
  using edges_fold_inv [of acc] by (simp add: edge_list_of_def)

lemma edge_list_weight:
  "e \<in> set (edge_list_of acc) \<Longrightarrow> first_weight acc (nodeA e) (nodeB e) = Some (weight_of e)"
  using edges_fold_inv [of acc] by (simp add: edge_list_of_def)

lemma edge_list_length: "length (edge_list_of acc) = card (pair_keys acc)"
proof -
  have "distinct (map Edge_key (edge_list_of acc))"
    using graph_lists_of [of acc] by (simp add: graph_lists_def)
  from distinct_card [OF this] show ?thesis by (simp add: edge_list_keys)
qed

subsection \<open>What the built graph holds\<close>

text \<open>
  The checks of the argument, lines 60 to 65: \<open>TypeError\<close> for \<open>None\<close>, for a value that is not a
  \<open>str\<close> and for a path that does not exist; \<open>open\<close> then raises for a path that it cannot
  read, and otherwise the constructor goes on with the lines of the file.
\<close>

lemma init_argument_errors:
  "CSFGraph_init env PyNone = Inl TypeError"
  "CSFGraph_init env PyOther = Inl TypeError"
  "file_system env path = None \<Longrightarrow> CSFGraph_init env (PyStr path) = Inl TypeError"
  "file_system env path = Some Unreadable \<Longrightarrow> CSFGraph_init env (PyStr path) = Inl OSError"
  "file_system env path = Some (Readable lines) \<Longrightarrow>
     CSFGraph_init env (PyStr path) = build env lines"
  by (simp_all add: CSFGraph_init_def)

lemma init_constructed:
  "CSFGraph_init env filepath = Inr g \<Longrightarrow>
     \<exists>path lines. filepath = PyStr path \<and> file_system env path = Some (Readable lines) \<and>
       build env lines = Inr g"
  by (auto simp: CSFGraph_init_def split: pyarg.splits option.splits fs_entry.splits)

text \<open>
  A graph that the constructor returns for a path comes from the lines of the file.
\<close>

lemma init_build:
  "file_system env path = Some (Readable lines) \<Longrightarrow>
     CSFGraph_init env (PyStr path) = Inr g \<Longrightarrow> build env lines = Inr g"
  by (simp add: CSFGraph_init_def)

lemma build_node_count:
  assumes "build env lines = Inr g"
  shows "node_count g = length (node_list_of (accepted (py_float env) lines))"
  by (simp add: node_count_def layout_n2i [OF build_layout [OF assms]])

lemma build_nodes:
  assumes "build env lines = Inr g"
  shows "nodes g = node_list_of (accepted (py_float env) lines)"
  by (simp add: nodes_def layout_n2i [OF build_layout [OF assms]])

lemma index_label:
  assumes "layout oor NL EL g" "i < length NL"
  shows "map_of (index_to_node_map g) i = Some (NL ! i)"
  using zip_lookup_index [OF assms(2)] by (simp add: layout_i2n [OF assms(1)])

lemma joins_sym: "joins b a = joins a b"
  by (rule ext) (auto simp: joins_iff)

lemma first_weight_sym: "first_weight acc b a = first_weight acc a b"
  by (simp add: first_weight_def joins_sym)


lemma key_edge:
  assumes "(a, b) \<in> pair_keys acc"
  shows "\<exists>e\<in>set (edge_list_of acc). nodeA e = a \<and> nodeB e = b \<and>
           first_weight acc a b = Some (weight_of e)"
proof -
  from assms have "(a, b) \<in> Edge_key ` set (edge_list_of acc)" by (simp only: edge_list_keys)
  then obtain e where e: "e \<in> set (edge_list_of acc)" and k: "Edge_key e = (a, b)" by auto
  from k have ab: "nodeA e = a" "nodeB e = b" by (simp_all add: Edge_key_def)
  from edge_list_weight [OF e] ab have "first_weight acc a b = Some (weight_of e)" by simp
  with e ab show ?thesis by blast
qed

lemma stored_weight:
  assumes b: "build env lines = Inr g"
    and k: "(a, b) \<in> pair_keys (accepted (py_float env) lines)"
  shows "\<exists>w0 v. first_weight (accepted (py_float env) lines) a b = Some w0 \<and>
                int32_of_float (int32_out_of_range env) w0 = Inr v \<and>
                weight g a b = (Inr v, g) \<and> has_edge g a b = (Inr True, g)"
proof -
  let ?acc = "accepted (py_float env) lines"
  note lay = build_layout [OF b]
  note gl = graph_lists_of [of ?acc]
  from key_edge [OF k] obtain e where e: "e \<in> set (edge_list_of ?acc)"
    and ea: "nodeA e = a" and eb: "nodeB e = b"
    and fw: "first_weight ?acc a b = Some (weight_of e)" by blast
  from weight_known [OF lay gl e] obtain v where
    v: "int32_of_float (int32_out_of_range env) (weight_of e) = Inr v"
    and w: "weight g a b = (Inr v, g)" unfolding ea eb by blast
  from gl e have "nodeA e \<in> set (node_list_of ?acc)" "nodeB e \<in> set (node_list_of ?acc)"
    by (simp_all add: graph_lists_def)
  then obtain s t where s: "s < length (node_list_of ?acc)" and as: "a = node_list_of ?acc ! s"
    and t: "t < length (node_list_of ?acc)" and bt: "b = node_list_of ?acc ! t"
    unfolding ea eb using node_position by metis
  have "(a, b) \<in> Edge_key ` set (edge_list_of ?acc)" using k by (simp only: edge_list_keys)
  then have "has_edge g a b = (Inr True, g)"
    unfolding as bt by (simp only: has_edge_known [OF lay gl s t])
  with fw v w show ?thesis by blast
qed

lemma first_weight_key:
  assumes "first_weight acc a b = Some w"
  shows "(a, b) \<in> pair_keys acc"
proof -
  from assms obtain t where "find (joins a b) acc = Some t"
    by (auto simp: first_weight_def)
  from find_SomeD [OF this] have "\<exists>u\<in>set acc. joins a b u" by blast
  then show ?thesis by (simp only: joins_pair_keys)
qed

lemma filter_key_single:
  "distinct (map f xs) \<Longrightarrow> x \<in> set xs \<Longrightarrow> filter (\<lambda>y. f y = f x) xs = [x]"
proof (induction xs)
  case Nil
  then show ?case by simp
next
  case (Cons y ys)
  show ?case
  proof (cases "x = y")
    case True
    have "f x \<notin> f ` set ys" using Cons.prems(1) True by simp
    then have "\<forall>z\<in>set ys. f z \<noteq> f x" by (metis imageI)
    then have "filter (\<lambda>y. f y = f x) ys = []" by (simp add: filter_empty_conv)
    then show ?thesis using True by simp
  next
    case False
    then have x: "x \<in> set ys" using Cons.prems(2) by simp
    have "f y \<notin> f ` set ys" using Cons.prems(1) by simp
    then have "f y \<noteq> f x" using x by (metis imageI)
    then show ?thesis using Cons.IH x Cons.prems(1) by simp
  qed
qed

lemma count_list_map_filter: "count_list (map f xs) k = length (filter (\<lambda>y. f y = k) xs)"
  by (induction xs) auto

lemma first_weight_at:
  assumes "i < length acc" "joins a b (acc ! i)" "\<forall>k<i. \<not> joins a b (acc ! k)"
  shows "first_weight acc a b = Some (snd (snd (acc ! i)))"
proof -
  have "find (joins a b) acc = Some (acc ! i)"
    unfolding find_Some_iff using assms by blast
  then show ?thesis by (simp add: first_weight_def)
qed

lemma retained_record:
  assumes fw: "first_weight acc a b = Some w"
  shows "filter (\<lambda>e. Edge_key e = (a, b)) (edge_list_of acc) = [Edge a b w]"
proof -
  from key_edge [OF first_weight_key [OF fw]] fw obtain e where
    e: "e \<in> set (edge_list_of acc)" and f: "nodeA e = a" "nodeB e = b" "weight_of e = w"
    by auto
  from f have ee: "e = Edge a b w" by (cases e) simp
  have d: "distinct (map Edge_key (edge_list_of acc))"
    using graph_lists_of [of acc] by (simp add: graph_lists_def)
  from filter_key_single [OF d e] show ?thesis
    unfolding ee by (simp add: Edge_key_Edge)
qed

lemma retained_weight_accepted:
  assumes "e \<in> set (edge_list_of acc)"
  shows "\<exists>t\<in>set acc. snd (snd t) = weight_of e"
proof -
  from edge_list_weight [OF assms] obtain t where
    f: "find (joins (nodeA e) (nodeB e)) acc = Some t" and w: "snd (snd t) = weight_of e"
    by (auto simp: first_weight_def)
  from find_SomeD [OF f] w show ?thesis by blast
qed

text \<open>
  \<open>edges()\<close> lists each ordered pair of the accepted lines once, and nothing else.
\<close>

lemma build_edges:
  assumes "build env lines = Inr g"
  shows "\<exists>es. edges g = (Inr es, g) \<and> distinct es \<and>
              set es = pair_keys (accepted (py_float env) lines)"
proof -
  let ?acc = "accepted (py_float env) lines"
  note lay = build_layout [OF assms]
  note gl = graph_lists_of [of ?acc]
  have "edges g = (Inr (map Edge_key (edge_list_of ?acc)), g)" using lay gl by (rule edges_known)
  moreover have "distinct (map Edge_key (edge_list_of ?acc))"
    using gl by (simp add: graph_lists_def)
  moreover have "set (map Edge_key (edge_list_of ?acc)) = pair_keys ?acc"
    by (simp add: edge_list_keys)
  ultimately show ?thesis by blast
qed

text \<open>
  Between two labels of the graph that no stored edge joins, \<open>weight\<close> raises \<open>TypeError\<close> and
  leaves the graph as it is.
\<close>

lemma weight_raises_between_nodes:
  assumes b: "build env lines = Inr g"
    and a: "a \<in> set (nodes g)" "c \<in> set (nodes g)"
    and no: "(a, c) \<notin> pair_keys (accepted (py_float env) lines)"
  shows "weight g a c = (Inl TypeError, g)"
proof -
  let ?acc = "accepted (py_float env) lines"
  note lay = build_layout [OF b]
  note gl = graph_lists_of [of ?acc]
  from a obtain s t where s: "s < length (node_list_of ?acc)" and as: "a = node_list_of ?acc ! s"
    and t: "t < length (node_list_of ?acc)" and ct: "c = node_list_of ?acc ! t"
    unfolding build_nodes [OF b] using node_position by metis
  have "(node_list_of ?acc ! s, node_list_of ?acc ! t) \<notin> Edge_key ` set (edge_list_of ?acc)"
    using no unfolding as ct by (simp only: edge_list_keys not_False_eq_True)
  from weight_missing [OF lay gl s t this] show ?thesis unfolding as ct .
qed

subsection \<open>Counting the edges\<close>

lemma unordered_pair_le: "p \<in> unordered_pair ` set acc \<Longrightarrow> fst p \<le> snd p"
  by (auto simp: unordered_pair_def min.coboundedI1 split: prod.splits)

lemma pair_keys_unordered:
  "pair_keys acc = unordered_pair ` set acc \<union> prod.swap ` unordered_pair ` set acc"
proof -
  have "{(fst t, fst (snd t)), (fst (snd t), fst t)} =
        {unordered_pair t, prod.swap (unordered_pair t)}" for t :: "string \<times> string \<times> pyfloat"
    by (cases t) (auto simp: unordered_pair_def min_def max_def)
  then have "pair_keys acc = (\<Union>t\<in>set acc. {unordered_pair t, prod.swap (unordered_pair t)})"
    by (simp add: pair_keys_def)
  also have "\<dots> = unordered_pair ` set acc \<union> prod.swap ` unordered_pair ` set acc"
    by blast
  finally show ?thesis .
qed

lemma card_sym_closure:
  fixes U :: "('a::linorder \<times> 'a) set"
  assumes fin: "finite U" and le: "\<forall>p\<in>U. fst p \<le> snd p"
  shows "card (U \<union> prod.swap ` U) =
           2 * card {p \<in> U. fst p \<noteq> snd p} + card {p \<in> U. fst p = snd p}"
proof -
  let ?U1 = "{p \<in> U. fst p \<noteq> snd p}" and ?U0 = "{p \<in> U. fst p = snd p}"
  have lt: "\<forall>p\<in>?U1. fst p < snd p" using le by auto
  have s0: "prod.swap ` ?U0 = ?U0"
  proof (rule set_eqI)
    fix p :: "'a \<times> 'a"
    show "p \<in> prod.swap ` ?U0 \<longleftrightarrow> p \<in> ?U0"
    proof
      assume "p \<in> prod.swap ` ?U0"
      then obtain q where q: "q \<in> U" "fst q = snd q" and p: "p = prod.swap q" by blast
      from q(2) p have "p = q" by (cases q) simp
      with q show "p \<in> ?U0" by simp
    next
      assume a: "p \<in> ?U0"
      then have "p = prod.swap p" by (cases p) simp
      from this a show "p \<in> prod.swap ` ?U0" by (rule image_eqI)
    qed
  qed
  have "U \<union> prod.swap ` U = (?U0 \<union> ?U1) \<union> (prod.swap ` ?U0 \<union> prod.swap ` ?U1)"
    by blast
  also have "\<dots> = ?U0 \<union> (?U1 \<union> prod.swap ` ?U1)"
    unfolding s0 by blast
  finally have split: "U \<union> prod.swap ` U = ?U0 \<union> (?U1 \<union> prod.swap ` ?U1)" .
  have f1: "finite ?U1" and f0: "finite ?U0" using fin by simp_all
  have d1: "?U1 \<inter> prod.swap ` ?U1 = {}"
  proof (rule ccontr)
    assume "?U1 \<inter> prod.swap ` ?U1 \<noteq> {}"
    then obtain p q where p: "p \<in> ?U1" and q: "q \<in> ?U1" and pq: "p = prod.swap q" by blast
    from p lt have "fst p < snd p" by blast
    moreover from q lt have "fst q < snd q" by blast
    moreover from pq have "fst p = snd q" "snd p = fst q" by simp_all
    ultimately show False by simp
  qed
  have d0: "?U0 \<inter> (?U1 \<union> prod.swap ` ?U1) = {}" by auto
  have "card (prod.swap ` ?U1) = card ?U1" by (rule card_image) (simp add: inj_on_def)
  then have "card (?U1 \<union> prod.swap ` ?U1) = 2 * card ?U1"
    using card_Un_disjoint [OF f1 _ d1] f1 by simp
  moreover have "card (?U0 \<union> (?U1 \<union> prod.swap ` ?U1)) =
      card ?U0 + card (?U1 \<union> prod.swap ` ?U1)"
    using f0 f1 d0 by (intro card_Un_disjoint) simp_all
  ultimately show ?thesis unfolding split by simp
qed

lemma length_filter_unordered:
  "length (filter P (unordered_pairs acc)) = card {p \<in> unordered_pair ` set acc. P p}"
proof -
  have "distinct (filter P (unordered_pairs acc))" by (simp add: unordered_pairs_def)
  from distinct_card [OF this] have "length (filter P (unordered_pairs acc)) =
      card (set (filter P (unordered_pairs acc)))" by simp
  also have "set (filter P (unordered_pairs acc)) = {p \<in> unordered_pair ` set acc. P p}"
    by (auto simp: unordered_pairs_def)
  finally show ?thesis .
qed

subsection \<open>When the constructor returns\<close>

text \<open>
  \<open>__lt__\<close> is the strict order of the keys, so sorting the edges with \<open>__lt__\<close> is sorting
  them on \<open>Edge_key\<close>.
\<close>

lemma Edge_lt_key: "Edge_lt e other \<longleftrightarrow> Edge_key e < Edge_key other"
  by (auto simp: Edge_lt_def Edge_key_def less_prod_def)

lemma offset_pass_succeeds:
  "\<forall>n\<in>set ns. n \<noteq> [] \<and> map_of n2i n \<noteq> None \<Longrightarrow> i + length ns < length offs \<Longrightarrow>
     \<exists>st. offset_pass ns (nt, n2i, cnt, i, offset, offs) = Inr st"
proof (induction ns arbitrary: nt cnt i offset offs)
  case Nil
  show ?case by simp
next
  case (Cons n ns)
  from Cons.prems(1) obtain c cs s where n: "n = c # cs" and s: "map_of n2i n = Some s"
    by (cases n) auto
  obtain ne cnt1 where g: "dd_getitem 0 cnt s = (ne, cnt1)" by (cases "dd_getitem 0 cnt s")
  have lt: "i + 1 < length offs" using Cons.prems(2) by simp
  have "\<exists>st. offset_pass ns (dd_incr [c] nt, n2i, cnt1, i + 1, offset + ne,
                 offs[i + 1 := offset + ne]) = Inr st"
    using Cons.prems by (intro Cons.IH) simp_all
  then show ?case
    using lt by (simp add: n dd_getitem_hit [OF s [unfolded n]] g ebind_def np_setitem_def)
qed

lemma fill_pass_succeeds:
  "\<forall>e\<in>set el. map_of n2i (nodeA e) \<noteq> None \<and> map_of n2i (nodeB e) \<noteq> None \<and>
               (\<exists>v. int32_of_float oor (weight_of e) = Inr v) \<Longrightarrow>
   j + length el \<le> length et \<Longrightarrow> j + length el \<le> length ew \<Longrightarrow>
     \<exists>st. fill_pass oor el (n2i, cur, off, j, et, ew) = Inr st"
proof (induction el arbitrary: cur off j et ew)
  case Nil
  show ?case by simp
next
  case (Cons e el)
  from Cons.prems(1) obtain s d v where s: "map_of n2i (nodeA e) = Some s"
    and d: "map_of n2i (nodeB e) = Some d"
    and v: "int32_of_float oor (weight_of e) = Inr v" by auto
  obtain cur1 off1 where co:
    "(if int s \<noteq> cur then (int s, 0) else (cur, off + 1)) = (cur1, off1)"
    by (cases "int s \<noteq> cur") simp_all
  have lt: "j < length et" "j < length ew" using Cons.prems(2,3) by simp_all
  have "\<exists>st. fill_pass oor el (n2i, cur1, off1, j + 1, et[j := d], ew[j := v]) = Inr st"
    using Cons.prems by (intro Cons.IH) simp_all
  then show ?case
    using lt by (simp add: dd_getitem_hit [OF s] dd_getitem_hit [OF d] co v ebind_def
        np_setitem_def)
qed

lemma construct_succeeds:
  assumes d: "distinct ns"
    and ends: "\<forall>e\<in>set es. nodeA e \<in> set ns \<and> nodeB e \<in> set ns"
    and ne: "\<forall>n\<in>set ns. n \<noteq> []"
    and conv: "\<forall>e\<in>set es. \<exists>v. int32_of_float oor (weight_of e) = Inr v"
  shows "\<exists>g. construct oor (ns, es, et) = Inr g"
proof -
  let ?NL = "sort ns" and ?EL = "sort_key Edge_key es"
  let ?Z = "zip ?NL [0..<length ns]"
  have dNL: "distinct ?NL" using d by simp
  have domA: "\<forall>e\<in>set ?EL. map_of ?Z (nodeA e) \<noteq> None"
    using ends zip_lookup_dom [of ?NL] by simp
  have domF: "\<forall>e\<in>set ?EL. map_of ?Z (nodeA e) \<noteq> None \<and> map_of ?Z (nodeB e) \<noteq> None \<and>
               (\<exists>v. int32_of_float oor (weight_of e) = Inr v)"
    using ends conv zip_lookup_dom [of ?NL] by simp
  have domN: "\<forall>n\<in>set ?NL. n \<noteq> [] \<and> map_of ?Z n \<noteq> None"
    using ne zip_lookup_dom [of ?NL] by simp
  from count_pass_closed [OF domA, of "[]"] obtain cnt where
    cp: "count_pass ?EL (?Z, []) = (?Z, cnt)" by blast
  have ix: "index_nodes ?NL [0..<length ns] ([], []) = (?Z, zip [0..<length ns] ?NL)"
    using index_nodes_closed [OF dNL] by simp
  have "\<exists>st. offset_pass ?NL ([], ?Z, cnt, 0, 0, 0 # replicate (length ns) 0) = Inr st"
    using domN by (rule offset_pass_succeeds) simp
  then obtain st0 where
    op0: "offset_pass ?NL ([], ?Z, cnt, 0, 0, 0 # replicate (length ns) 0) = Inr st0" by blast
  obtain nt n2i2 cnt1 i off offs where st0: "st0 = (nt, n2i2, cnt1, i, off, offs)"
    by (cases st0)
  note op = op0 [unfolded st0]
  from offset_pass_closed [OF op] domN have n2: "n2i2 = ?Z" by blast
  have "\<exists>st. fill_pass oor ?EL (?Z, - 1, 0, 0, replicate (length es) 0,
      replicate (length es) 0) = Inr st"
    using domF by (rule fill_pass_succeeds) simp_all
  then obtain st where fp: "fill_pass oor ?EL (?Z, - 1, 0, 0, replicate (length es) 0,
      replicate (length es) 0) = Inr st" by blast
  obtain n2i3 cur off1 j et1 ew1 where st: "st = (n2i3, cur, off1, j, et1, ew1)"
    by (cases st)
  show ?thesis
    unfolding construct_def Let_def
    by (simp add: ix cp ebind_def np_setitem_def op n2 fp st)
qed

lemma accepted_member:
  "t \<in> set (accepted pf lines) \<longleftrightarrow> (\<exists>l\<in>set lines. parse_line pf l = Some t)"
  by (induction lines) (auto simp: accepted_Nil accepted_Cons split: option.splits)

lemma accepted_nonempty:
  "(a, b, w) \<in> set (accepted pf lines) \<Longrightarrow> a \<noteq> [] \<and> b \<noteq> []"
  using accepted_member parse_line_nonempty by blast

text \<open>
  The constructor returns a graph exactly when numpy can store the weight of every record
  of the edge list: no line of the file, well-formed or not, makes the reading loop or the
  first two passes raise.
\<close>

lemma build_succeeds_iff:
  "(\<exists>g. build env lines = Inr g) \<longleftrightarrow>
   (\<forall>e\<in>set (edge_list_of (accepted (py_float env) lines)).
      \<exists>v. int32_of_float (int32_out_of_range env) (weight_of e) = Inr v)"
proof
  let ?acc = "accepted (py_float env) lines"
  assume "\<exists>g. build env lines = Inr g"
  then obtain g where b: "build env lines = Inr g" by blast
  show "\<forall>e\<in>set (edge_list_of ?acc).
      \<exists>v. int32_of_float (int32_out_of_range env) (weight_of e) = Inr v"
  proof
    fix e assume "e \<in> set (edge_list_of ?acc)"
    then obtain k where "k < length (edge_list_of ?acc)" "edge_list_of ?acc ! k = e"
      by (auto simp: in_set_conv_nth)
    with layout_cell_weight [OF build_layout [OF b], of k]
    show "\<exists>v. int32_of_float (int32_out_of_range env) (weight_of e) = Inr v" by auto
  qed
next
  let ?acc = "accepted (py_float env) lines"
  let ?ns = "foldl add_triple_nodes [] ?acc" and ?es = "foldl add_triple_edges [] ?acc"
  assume conv: "\<forall>e\<in>set (edge_list_of ?acc).
      \<exists>v. int32_of_float (int32_out_of_range env) (weight_of e) = Inr v"
  from read_lines_folds [of "py_float env" lines "[]" "[]" "[]"] obtain et where
    r: "read_lines (py_float env) lines ([], [], []) = Inr (?ns, ?es, et)" by blast
  from nodes_fold [of "[]" ?acc] have dn: "distinct ?ns"
    and sn: "set ?ns = (\<Union>t\<in>set ?acc. {fst t, fst (snd t)})" by simp_all
  have ends: "\<forall>e\<in>set ?es. nodeA e \<in> set ?ns \<and> nodeB e \<in> set ?ns"
    using graph_lists_of [of ?acc]
    by (simp add: graph_lists_def node_list_of_def edge_list_of_def)
  have ne: "\<forall>n\<in>set ?ns. n \<noteq> []"
  proof
    fix n assume "n \<in> set ?ns"
    then obtain t where t: "t \<in> set ?acc" and n: "n = fst t \<or> n = fst (snd t)"
      unfolding sn by blast
    obtain a b w where "t = (a, b, w)" by (cases t)
    with t n accepted_nonempty [of a b w "py_float env" lines] show "n \<noteq> []" by auto
  qed
  have conv': "\<forall>e\<in>set ?es. \<exists>v. int32_of_float (int32_out_of_range env) (weight_of e) = Inr v"
    using conv by (simp add: edge_list_of_def)
  from construct_succeeds [OF dn ends ne conv', of et] r
  show "\<exists>g. build env lines = Inr g" by (simp add: build_def ebind_def)
qed

text \<open>
  In particular it returns a graph when every accepted weight is finite and its integer
  part fits 32 bits.
\<close>

lemma build_succeeds_finite:
  assumes "\<forall>t\<in>set (accepted (py_float env) lines).
             \<exists>q. snd (snd t) = Finite q \<and> - (2 ^ 31) \<le> py_trunc q \<and> py_trunc q < 2 ^ 31"
  shows "\<exists>g. build env lines = Inr g"
  unfolding build_succeeds_iff
proof
  fix e assume "e \<in> set (edge_list_of (accepted (py_float env) lines))"
  from retained_weight_accepted [OF this] assms obtain q where
    "weight_of e = Finite q" "- (2 ^ 31) \<le> py_trunc q" "py_trunc q < 2 ^ 31" by metis
  then have "int32_of_float (int32_out_of_range env) (weight_of e) = Inr (py_trunc q)"
    by (simp add: int32_of_float_def)
  then show "\<exists>v. int32_of_float (int32_out_of_range env) (weight_of e) = Inr v" by blast
qed

subsection \<open>The examples\<close>

lemma example_file: "file_system (example_env ls) ''graph.txt'' = Some (Readable ls)"
  by (simp add: example_env_def)

lemma example_py_float: "py_float (example_env ls) = example_float"
  by (simp add: example_env_def)

lemma scenario_init:
  "CSFGraph_init (example_env scenario_lines) (PyStr ''graph.txt'') = Inr scenario_graph"
  by code_simp

lemma duplicate_init:
  "CSFGraph_init (example_env duplicate_lines) (PyStr ''graph.txt'') = Inr duplicate_graph"
  by code_simp

lemma self_loop_init:
  "CSFGraph_init (example_env self_loop_lines) (PyStr ''graph.txt'') = Inr self_loop_graph"
  by code_simp


lemma reversed_init:
  "CSFGraph_init (example_env reversed_lines) (PyStr ''graph.txt'') = Inr reversed_graph"
  by code_simp

lemma reversed_accepted:
  "accepted (py_float (example_env reversed_lines)) reversed_lines =
     [(''g1'', ''p1'', Finite 2), (''a'', ''b'', Finite (3 / 2)), (''b'', ''a'', Finite 5)]"
  by code_simp

section \<open>The claims\<close>

subsection \<open>C1: both directions of an accepted line\<close>




subsection \<open>C2: the queries and the state of the graph\<close>

text \<open>
  Claim C2 says that no query changes the graph, whatever the labels. On the graph of the
  file \<open>a b 1.5\<close>, \<open>a b 5.0\<close>, whose \<open>node_count()\<close> is 2, the call \<open>has_edge('zzz', 'a')\<close> reads
  \<open>node_to_index_map['zzz']\<close>; the map is a \<open>defaultdict(int)\<close>, so the read stores \<open>'zzz'\<close>
  with the index 0, and \<open>node_count()\<close> is 3 afterwards. The class is documented as one
  that cannot be modified after the construction.
\<close>

theorem query_changes_node_count:
  "CSFGraph_init (example_env duplicate_lines) (PyStr ''graph.txt'') = Inr duplicate_graph \<and>
   node_count duplicate_graph = 2 \<and>
   has_edge duplicate_graph ''zzz'' ''a'' =
     (Inr False, duplicate_graph\<lparr>node_to_index_map := [(''a'', 0), (''b'', 1), (''zzz'', 0)]\<rparr>) \<and>
   node_count (snd (has_edge duplicate_graph ''zzz'' ''a'')) = 3"
proof -
  have "node_count duplicate_graph = 2" by code_simp
  moreover have "has_edge duplicate_graph ''zzz'' ''a'' =
     (Inr False, duplicate_graph\<lparr>node_to_index_map := [(''a'', 0), (''b'', 1), (''zzz'', 0)]\<rparr>)"
    by code_simp
  moreover have "node_count (snd (has_edge duplicate_graph ''zzz'' ''a'')) = 3" by code_simp
  ultimately show ?thesis using duplicate_init by simp
qed

subsection \<open>C3: the weight of an edge that is not stored\<close>

text \<open>
  Claim C3 says that \<open>weight(s, d)\<close> raises whenever no directed edge from \<open>s\<close> to \<open>d\<close> is
  stored. On the graph of the file \<open>a b 1.5\<close>, \<open>a b 5.0\<close> the nodes are \<open>a\<close> and \<open>b\<close> and the
  stored edges are \<open>(a, b)\<close> and \<open>(b, a)\<close>; the label \<open>zzz\<close> is read from the
  \<open>defaultdict(int)\<close> as index 0, the index of \<open>a\<close>, and \<open>weight('zzz', 'b')\<close> returns the
  weight of the edge from \<open>a\<close> to \<open>b\<close>.
\<close>

theorem weight_of_unknown_label_returns:
  "CSFGraph_init (example_env duplicate_lines) (PyStr ''graph.txt'') = Inr duplicate_graph \<and>
   nodes duplicate_graph = [''a'', ''b''] \<and>
   edges duplicate_graph = (Inr [(''a'', ''b''), (''b'', ''a'')], duplicate_graph) \<and>
   fst (weight duplicate_graph ''zzz'' ''b'') = Inr 1"
proof -
  have "nodes duplicate_graph = [''a'', ''b'']" by code_simp
  moreover have "edges duplicate_graph = (Inr [(''a'', ''b''), (''b'', ''a'')], duplicate_graph)"
    by code_simp
  moreover have "fst (weight duplicate_graph ''zzz'' ''b'') = Inr 1" by code_simp
  ultimately show ?thesis using duplicate_init by simp
qed

subsection \<open>C4: the number of directed entries\<close>

text \<open>
  Claim C4 says that \<open>edge_count()\<close> is twice the number of distinct unordered pairs of the
  accepted lines, self-loops included. On the file of the one line \<open>a a 1.0\<close> there is one
  unordered pair and \<open>edge_count()\<close> is 1: the edge and its inverse are equal, and the set
  keeps one of them.
\<close>

theorem edge_count_self_loop_counterexample:
  "file_system (example_env self_loop_lines) ''graph.txt'' = Some (Readable self_loop_lines) \<and>
   CSFGraph_init (example_env self_loop_lines) (PyStr ''graph.txt'') = Inr self_loop_graph \<and>
   accepted (py_float (example_env self_loop_lines)) self_loop_lines = [(''a'', ''a'', Finite 1)] \<and>
   unordered_pairs (accepted (py_float (example_env self_loop_lines)) self_loop_lines) =
     [(''a'', ''a'')] \<and>
   edge_count self_loop_graph = 1 \<and>
   edge_count self_loop_graph \<noteq>
     2 * length (unordered_pairs (accepted (py_float (example_env self_loop_lines)) self_loop_lines))"
proof -
  have a: "accepted (py_float (example_env self_loop_lines)) self_loop_lines =
             [(''a'', ''a'', Finite 1)]" by code_simp
  have u: "unordered_pairs (accepted (py_float (example_env self_loop_lines)) self_loop_lines) =
             [(''a'', ''a'')]" by code_simp
  have c: "edge_count self_loop_graph = 1" by code_simp
  show ?thesis using example_file [of self_loop_lines] self_loop_init a u c by simp
qed

text \<open>
  Claim C4, amended. For every file from which the constructor returns a graph,
  \<open>edge_count()\<close> is twice the number of distinct unordered pairs of two different labels
  among the accepted lines, plus the number of distinct self-loops among them.
\<close>

theorem edge_count_accounting:
  assumes "file_system env path = Some (Readable lines)"
    and "CSFGraph_init env (PyStr path) = Inr g"
  shows "edge_count g =
           2 * length (filter (\<lambda>p. fst p \<noteq> snd p) (unordered_pairs (accepted (py_float env) lines))) +
           length (filter (\<lambda>p. fst p = snd p) (unordered_pairs (accepted (py_float env) lines)))"
proof -
  let ?acc = "accepted (py_float env) lines"
  let ?U = "unordered_pair ` set ?acc"
  have b: "build env lines = Inr g" using assms by (rule init_build)
  have "edge_count g = length (edge_list_of ?acc)"
    using layout_lengths [OF build_layout [OF b]] by (simp add: edge_count_def)
  also have "\<dots> = card (?U \<union> prod.swap ` ?U)"
    by (simp only: edge_list_length pair_keys_unordered)
  also have "\<dots> = 2 * card {p \<in> ?U. fst p \<noteq> snd p} + card {p \<in> ?U. fst p = snd p}"
    by (rule card_sym_closure) (simp_all add: unordered_pair_le)
  finally show ?thesis by (simp only: length_filter_unordered)
qed

text \<open>
  The amended claim C4 on the scenario file: two unordered pairs, no self-loop, four
  directed entries.
\<close>

theorem edge_count_accounting_witness:
  "file_system (example_env scenario_lines) ''graph.txt'' = Some (Readable scenario_lines) \<and>
   CSFGraph_init (example_env scenario_lines) (PyStr ''graph.txt'') = Inr scenario_graph \<and>
   unordered_pairs (accepted (py_float (example_env scenario_lines)) scenario_lines) =
     [(''g1'', ''p1''), (''g1'', ''g2'')] \<and>
   edge_count scenario_graph = 2 * 2 + 0"
proof -
  note fl = example_file [of scenario_lines] and b = scenario_init
  have u: "unordered_pairs (accepted (py_float (example_env scenario_lines)) scenario_lines) =
     [(''g1'', ''p1''), (''g1'', ''g2'')]" by code_simp
  from edge_count_accounting [OF fl b] have "edge_count scenario_graph = 2 * 2 + 0"
    unfolding u by simp
  with fl b u show ?thesis by simp
qed

subsection \<open>C5: the offset array\<close>

text \<open>
  Claim C5. For every file from which the constructor returns a graph, the offset array
  has \<open>node_count() + 1\<close> cells, starts with 0 and does not decrease; and for every node
  index \<open>i\<close>, \<open>neighbors\<close> of the label of \<open>i\<close> returns a list whose length is
  \<open>offset[i + 1] - offset[i]\<close> and leaves the graph as it is, so that a node without
  neighbours has \<open>offset[i] = offset[i + 1]\<close>.
\<close>

theorem offsets_consistent:
  assumes "file_system env path = Some (Readable lines)"
    and "CSFGraph_init env (PyStr path) = Inr g"
  shows "length (offset_to_edge g) = node_count g + 1 \<and>
         offset_to_edge g ! 0 = 0 \<and>
         sorted (offset_to_edge g) \<and>
         (\<forall>i<node_count g. \<exists>label nbrs.
            map_of (index_to_node_map g) i = Some label \<and>
            neighbors g label = (Inr nbrs, g) \<and>
            offset_to_edge g ! (i + 1) - offset_to_edge g ! i = length nbrs \<and>
            (nbrs = [] \<longrightarrow> offset_to_edge g ! i = offset_to_edge g ! (i + 1)))"
proof -
  let ?NL = "node_list_of (accepted (py_float env) lines)"
  let ?EL = "edge_list_of (accepted (py_float env) lines)"
  have b: "build env lines = Inr g" using assms by (rule init_build)
  note lay = build_layout [OF b]
  note gl = graph_lists_of [of "accepted (py_float env) lines"]
  have nc: "node_count g = length ?NL" using b by (rule build_node_count)
  have len: "length (offset_to_edge g) = node_count g + 1"
    using layout_lengths [OF lay] nc by simp
  have zero: "offset_to_edge g ! 0 = 0" using layout_offset [OF lay, of 0] by simp
  have mono: "sorted (offset_to_edge g)"
    unfolding sorted_iff_nth_mono
  proof (intro allI impI)
    fix i j assume "i \<le> j" "j < length (offset_to_edge g)"
    then have "j \<le> length ?NL" using len nc by simp
    from layout_offsets_mono [OF lay \<open>i \<le> j\<close> this]
    show "offset_to_edge g ! i \<le> offset_to_edge g ! j" .
  qed
  have blocks: "\<exists>label nbrs.
            map_of (index_to_node_map g) i = Some label \<and>
            neighbors g label = (Inr nbrs, g) \<and>
            offset_to_edge g ! (i + 1) - offset_to_edge g ! i = length nbrs \<and>
            (nbrs = [] \<longrightarrow> offset_to_edge g ! i = offset_to_edge g ! (i + 1))"
    if "i < node_count g" for i
  proof -
    from that nc have i: "i < length ?NL" by simp
    let ?nbrs = "map (\<lambda>j. nodeB (?EL ! j)) [offset_to_edge g ! i..<offset_to_edge g ! (i + 1)]"
    have le: "offset_to_edge g ! i \<le> offset_to_edge g ! (i + 1)"
      using layout_offsets_mono [OF lay, of i "i + 1"] i by simp
    have "map_of (index_to_node_map g) i = Some (?NL ! i)" using lay i by (rule index_label)
    moreover have "neighbors g (?NL ! i) = (Inr ?nbrs, g)" using lay gl i by (rule neighbors_known)
    moreover have "offset_to_edge g ! (i + 1) - offset_to_edge g ! i = length ?nbrs" by simp
    moreover have "?nbrs = [] \<longrightarrow> offset_to_edge g ! i = offset_to_edge g ! (i + 1)"
      using le by simp
    ultimately show ?thesis by blast
  qed
  show ?thesis using len zero mono blocks by blast
qed

text \<open>
  Claim C5 on the scenario file, at the node index 0, whose label is \<open>g1\<close>.
\<close>

theorem offsets_consistent_witness:
  "file_system (example_env scenario_lines) ''graph.txt'' = Some (Readable scenario_lines) \<and>
   CSFGraph_init (example_env scenario_lines) (PyStr ''graph.txt'') = Inr scenario_graph \<and>
   length (offset_to_edge scenario_graph) = node_count scenario_graph + 1 \<and>
   offset_to_edge scenario_graph ! 0 = 0 \<and>
   sorted (offset_to_edge scenario_graph) \<and>
   (0::nat) < node_count scenario_graph \<and>
   map_of (index_to_node_map scenario_graph) 0 = Some ''g1'' \<and>
   neighbors scenario_graph ''g1'' = (Inr [''g2'', ''p1''], scenario_graph) \<and>
   offset_to_edge scenario_graph ! (0 + 1) - offset_to_edge scenario_graph ! 0 =
     length [''g2'', ''p1'']"
proof -
  note f = example_file [of scenario_lines] and b = scenario_init
  have n: "(0::nat) < node_count scenario_graph" by code_simp
  have l: "map_of (index_to_node_map scenario_graph) 0 = Some ''g1''" by code_simp
  have nb: "neighbors scenario_graph ''g1'' = (Inr [''g2'', ''p1''], scenario_graph)" by code_simp
  from offsets_consistent [OF f b] n obtain label nbrs where
    t: "length (offset_to_edge scenario_graph) = node_count scenario_graph + 1"
       "offset_to_edge scenario_graph ! 0 = 0" "sorted (offset_to_edge scenario_graph)"
       "map_of (index_to_node_map scenario_graph) 0 = Some label"
       "neighbors scenario_graph label = (Inr nbrs, scenario_graph)"
       "offset_to_edge scenario_graph ! (0 + 1) - offset_to_edge scenario_graph ! 0 = length nbrs"
    by blast
  from t(4) l have "label = ''g1''" by simp
  with t(5) nb have "nbrs = [''g2'', ''p1'']" by simp
  with t f b n l nb show ?thesis by blast
qed

subsection \<open>C6: malformed lines\<close>

text \<open>
  Claim C6 says that the constructor returns a graph whatever the well-formed and the
  malformed lines of the file are. The line \<open>a b nan\<close> has three fields and \<open>float\<close> parses
  the third, so the line is accepted; the third pass then stores the weight into the
  \<open>int32\<close> array \<open>edge_weight\<close>, numpy raises \<open>ValueError\<close> on the conversion of a NaN, and
  no graph is returned. The reading loop is written to skip a line whose weight is not a
  number and to go on.
\<close>

theorem nan_weight_aborts_build:
  "parse_line (py_float (example_env nan_lines)) ''a b nan'' = Some (''a'', ''b'', NaN) \<and>
   accepted (py_float (example_env nan_lines)) nan_lines = [(''a'', ''b'', NaN)] \<and>
   build (example_env nan_lines) nan_lines = Inl ValueError \<and>
   CSFGraph_init (example_env nan_lines) (PyStr ''graph.txt'') = Inl ValueError"
proof -
  have "parse_line (py_float (example_env nan_lines)) ''a b nan'' = Some (''a'', ''b'', NaN)"
    by code_simp
  moreover have "accepted (py_float (example_env nan_lines)) nan_lines = [(''a'', ''b'', NaN)]"
    by code_simp
  moreover have "build (example_env nan_lines) nan_lines = Inl ValueError" by code_simp
  moreover have "CSFGraph_init (example_env nan_lines) (PyStr ''graph.txt'') = Inl ValueError"
    by code_simp
  ultimately show ?thesis by simp
qed

subsection \<open>C7: the same pair on two lines\<close>

text \<open>
  Claim C7. Let the accepted line number \<open>i\<close> be \<open>(a, b, w1)\<close>, and let no earlier accepted
  line join \<open>a\<close> and \<open>b\<close>. Then, whatever lines follow, the edge list holds exactly one record
  from \<open>a\<close> to \<open>b\<close> and one from \<open>b\<close> to \<open>a\<close>, both with the weight \<open>w1\<close>; \<open>edges()\<close> lists the
  pair once in each direction, \<open>edge_count()\<close> is the length of that list, and \<open>weight\<close>
  returns in both directions the integer stored for \<open>w1\<close>.
\<close>

theorem duplicate_pair_first_wins:
  assumes "file_system env path = Some (Readable lines)"
    and "CSFGraph_init env (PyStr path) = Inr g"
    and "i < length (accepted (py_float env) lines)"
    and "accepted (py_float env) lines ! i = (a, b, w1)"
    and "\<forall>k<i. \<not> joins a b (accepted (py_float env) lines ! k)"
  shows "filter (\<lambda>e. Edge_key e = (a, b)) (edge_list_of (accepted (py_float env) lines)) =
           [Edge a b w1] \<and>
         filter (\<lambda>e. Edge_key e = (b, a)) (edge_list_of (accepted (py_float env) lines)) =
           [Edge b a w1] \<and>
         (\<exists>es v. edges g = (Inr es, g) \<and> edge_count g = length es \<and>
                 count_list es (a, b) = 1 \<and> count_list es (b, a) = 1 \<and>
                 int32_of_float (int32_out_of_range env) w1 = Inr v \<and>
                 weight g a b = (Inr v, g) \<and> weight g b a = (Inr v, g))"
proof -
  let ?acc = "accepted (py_float env) lines"
  let ?EL = "edge_list_of ?acc"
  have b: "build env lines = Inr g" using assms(1,2) by (rule init_build)
  note lay = build_layout [OF b]
  note gl = graph_lists_of [of ?acc]
  have "joins a b (?acc ! i)" by (simp add: assms(4) joins_def)
  from first_weight_at [OF assms(3) this assms(5)]
  have fw: "first_weight ?acc a b = Some w1" by (simp add: assms(4))
  then have fw': "first_weight ?acc b a = Some w1" by (simp add: first_weight_sym)
  note r1 = retained_record [OF fw] and r2 = retained_record [OF fw']
  have ed: "edges g = (Inr (map Edge_key ?EL), g)" using lay gl by (rule edges_known)
  have ec: "edge_count g = length (map Edge_key ?EL)"
    using layout_lengths [OF lay] by (simp add: edge_count_def)
  have c1: "count_list (map Edge_key ?EL) (a, b) = 1" by (simp add: count_list_map_filter r1)
  have c2: "count_list (map Edge_key ?EL) (b, a) = 1" by (simp add: count_list_map_filter r2)
  from stored_weight [OF b first_weight_key [OF fw]] fw obtain v where
    v: "int32_of_float (int32_out_of_range env) w1 = Inr v" and w1: "weight g a b = (Inr v, g)"
    by auto
  from stored_weight [OF b first_weight_key [OF fw']] fw' v
  have w2: "weight g b a = (Inr v, g)" by auto
  show ?thesis using r1 r2 ed ec c1 c2 v w1 w2 by blast
qed

text \<open>
  Claim C7 on the file \<open>g1 p1 2.0\<close>, \<open>a b 1.5\<close>, \<open>b a 5.0\<close>, at the second line: the first line
  does not join \<open>a\<close> and \<open>b\<close>, the third joins them again with another weight, and the two
  records, the two entries of \<open>edges()\<close> and the weight 1 are those of the second line.
\<close>

theorem duplicate_pair_first_wins_witness:
  "file_system (example_env reversed_lines) ''graph.txt'' = Some (Readable reversed_lines) \<and>
   CSFGraph_init (example_env reversed_lines) (PyStr ''graph.txt'') = Inr reversed_graph \<and>
   (1::nat) < length (accepted (py_float (example_env reversed_lines)) reversed_lines) \<and>
   accepted (py_float (example_env reversed_lines)) reversed_lines ! 1 =
     (''a'', ''b'', Finite (3 / 2)) \<and>
   \<not> joins ''a'' ''b'' (accepted (py_float (example_env reversed_lines)) reversed_lines ! 0) \<and>
   accepted (py_float (example_env reversed_lines)) reversed_lines ! 2 =
     (''b'', ''a'', Finite 5) \<and>
   filter (\<lambda>e. Edge_key e = (''a'', ''b''))
     (edge_list_of (accepted (py_float (example_env reversed_lines)) reversed_lines)) =
       [Edge ''a'' ''b'' (Finite (3 / 2))] \<and>
   filter (\<lambda>e. Edge_key e = (''b'', ''a''))
     (edge_list_of (accepted (py_float (example_env reversed_lines)) reversed_lines)) =
       [Edge ''b'' ''a'' (Finite (3 / 2))] \<and>
   edges reversed_graph =
     (Inr [(''a'', ''b''), (''b'', ''a''), (''g1'', ''p1''), (''p1'', ''g1'')], reversed_graph) \<and>
   edge_count reversed_graph = 4 \<and>
   count_list [(''a'', ''b''), (''b'', ''a''), (''g1'', ''p1''), (''p1'', ''g1'')] (''a'', ''b'') = 1 \<and>
   count_list [(''a'', ''b''), (''b'', ''a''), (''g1'', ''p1''), (''p1'', ''g1'')] (''b'', ''a'') = 1 \<and>
   weight reversed_graph ''a'' ''b'' = (Inr 1, reversed_graph) \<and>
   weight reversed_graph ''b'' ''a'' = (Inr 1, reversed_graph)"
proof -
  let ?env = "example_env reversed_lines"
  let ?acc = "accepted (py_float ?env) reversed_lines"
  let ?es = "[(''a'', ''b''), (''b'', ''a''), (''g1'', ''p1''), (''p1'', ''g1'')]"
  note fl = example_file [of reversed_lines] and b = reversed_init
  have l: "(1::nat) < length ?acc" by (simp add: reversed_accepted)
  have a1: "?acc ! 1 = (''a'', ''b'', Finite (3 / 2))" by (simp add: reversed_accepted)
  have a2: "?acc ! 2 = (''b'', ''a'', Finite 5)" by (simp add: reversed_accepted)
  have n0: "\<not> joins ''a'' ''b'' (?acc ! 0)" by (simp add: reversed_accepted joins_def)
  then have first: "\<forall>k<1. \<not> joins ''a'' ''b'' (?acc ! k)" by simp
  have e: "edges reversed_graph = (Inr ?es, reversed_graph)" by code_simp
  have c: "int32_of_float (int32_out_of_range ?env) (Finite (3 / 2)) = Inr 1"
    by code_simp
  from duplicate_pair_first_wins [OF fl b l a1 first] obtain es v where
    r: "filter (\<lambda>e. Edge_key e = (''a'', ''b'')) (edge_list_of ?acc) =
          [Edge ''a'' ''b'' (Finite (3 / 2))]"
       "filter (\<lambda>e. Edge_key e = (''b'', ''a'')) (edge_list_of ?acc) =
          [Edge ''b'' ''a'' (Finite (3 / 2))]"
    and q: "edges reversed_graph = (Inr es, reversed_graph)" "edge_count reversed_graph = length es"
       "count_list es (''a'', ''b'') = 1" "count_list es (''b'', ''a'') = 1"
       "int32_of_float (int32_out_of_range ?env) (Finite (3 / 2)) = Inr v"
       "weight reversed_graph ''a'' ''b'' = (Inr v, reversed_graph)"
       "weight reversed_graph ''b'' ''a'' = (Inr v, reversed_graph)"
    by blast
  from q(1) e have es: "es = ?es" by simp
  from q(5) c have v: "v = 1" by simp
  from q(2) es have ec: "edge_count reversed_graph = 4" by simp
  show ?thesis
    using fl b l a1 a2 n0 r e ec q(3,4) q(6,7) unfolding es v by (intro conjI)
qed

subsection \<open>C8: the argument of the constructor\<close>

text \<open>
  Claim C8 says that the constructor raises only when its argument is \<open>None\<close>, is not a
  string, or names no file, and that it does not raise for an existing readable file. The
  file \<open>graph.txt\<close> exists and is readable, its only line is \<open>a b nan\<close>, and the constructor
  raises \<open>ValueError\<close> when the third pass stores the NaN into the \<open>int32\<close> array.
\<close>

theorem init_raises_on_readable_file:
  "file_system (example_env nan_lines) ''graph.txt'' = Some (Readable nan_lines) \<and>
   CSFGraph_init (example_env nan_lines) (PyStr ''graph.txt'') = Inl ValueError"
proof -
  have "CSFGraph_init (example_env nan_lines) (PyStr ''graph.txt'') = Inl ValueError"
    by code_simp
  then show ?thesis using example_file [of nan_lines] by simp
qed

subsection \<open>C9: no destination twice in a block\<close>

text \<open>
  Claim C9. For every file from which the constructor returns a graph, every node index
  \<open>s\<close> and every \<open>d\<close>, the block of \<open>s\<close> in \<open>edge_to\<close> holds \<open>d\<close> at most once.
\<close>

theorem no_duplicate_destinations:
  assumes "file_system env path = Some (Readable lines)"
    and "CSFGraph_init env (PyStr path) = Inr g"
    and "s < node_count g"
  shows "count_list (block g (edge_to g) s) d \<le> 1"
proof -
  have b: "build env lines = Inr g" using assms(1,2) by (rule init_build)
  note lay = build_layout [OF b]
  note gl = graph_lists_of [of "accepted (py_float env) lines"]
  have "s < length (node_list_of (accepted (py_float env) lines))"
    using assms(3) build_node_count [OF b] by simp
  from block_distinct [OF lay gl this] show ?thesis by (rule distinct_count_le)
qed

text \<open>
  Claim C9 on the scenario file, for the block of the node index 0 and the destination 2.
\<close>

theorem no_duplicate_destinations_witness:
  "file_system (example_env scenario_lines) ''graph.txt'' = Some (Readable scenario_lines) \<and>
   CSFGraph_init (example_env scenario_lines) (PyStr ''graph.txt'') = Inr scenario_graph \<and>
   (0::nat) < node_count scenario_graph \<and>
   block scenario_graph (edge_to scenario_graph) 0 = [1, 2] \<and>
   count_list (block scenario_graph (edge_to scenario_graph) 0) 2 \<le> 1"
proof -
  note f = example_file [of scenario_lines] and b = scenario_init
  have n: "(0::nat) < node_count scenario_graph" by code_simp
  have k: "block scenario_graph (edge_to scenario_graph) 0 = [1, 2]" by code_simp
  from no_duplicate_destinations [OF f b n, of 2] f b n k show ?thesis by blast
qed

subsection \<open>C10: the weights are 32-bit integers\<close>

text \<open>
  Rounding towards zero, without the function that computes it: the integer \<open>t\<close> is \<open>q\<close>
  rounded towards zero when \<open>t\<close> is not further from zero than \<open>q\<close> and differs from \<open>q\<close> by
  less than one. \<open>py_trunc q\<close> is such an integer, and the only one.
\<close>

lemma py_trunc_towards_zero:
  "\<bar>of_int (py_trunc q)\<bar> \<le> \<bar>q\<bar> \<and> \<bar>q - of_int (py_trunc q)\<bar> < 1"
proof (cases "q < 0")
  case True
  then have p: "py_trunc q = \<lceil>q\<rceil>" by (simp add: py_trunc_def)
  have a: "q \<le> of_int \<lceil>q\<rceil>" and b: "of_int \<lceil>q\<rceil> < q + 1" by linarith+
  have "\<lceil>q\<rceil> \<le> 0" using True by (simp add: ceiling_le_iff)
  then have c: "(of_int \<lceil>q\<rceil> :: rat) \<le> 0" by simp
  show ?thesis unfolding p using a b c True by linarith
next
  case False
  then have p: "py_trunc q = \<lfloor>q\<rfloor>" by (simp add: py_trunc_def)
  have a: "of_int \<lfloor>q\<rfloor> \<le> q" and b: "q < of_int \<lfloor>q\<rfloor> + 1" by linarith+
  have "0 \<le> \<lfloor>q\<rfloor>" using False by simp
  then have c: "(0::rat) \<le> of_int \<lfloor>q\<rfloor>" by simp
  show ?thesis unfolding p using a b c False by linarith
qed

lemma towards_zero_unique:
  fixes q :: rat
  assumes "\<bar>of_int t\<bar> \<le> \<bar>q\<bar>" and "\<bar>q - of_int t\<bar> < 1"
  shows "t = py_trunc q"
proof (cases "q < 0")
  case True
  from assms True have "q \<le> of_int t" "of_int t < q + 1" by (simp_all add: abs_if split: if_splits)
  then have "\<lceil>q\<rceil> = t" by (intro ceiling_unique) simp_all
  then show ?thesis using True by (simp add: py_trunc_def)
next
  case False
  from assms False have "of_int t \<le> q" "q < of_int t + 1" by (simp_all add: abs_if split: if_splits)
  then have "\<lfloor>q\<rfloor> = t" by (intro floor_unique) simp_all
  then show ?thesis using False by (simp add: py_trunc_def)
qed

lemma wrapping_file: "file_system (wrapping_env ls) ''graph.txt'' = Some (Readable ls)"
  by (simp add: wrapping_env_def)

lemma big_weight_init:
  "CSFGraph_init (wrapping_env big_weight_lines) (PyStr ''graph.txt'') = Inr big_weight_graph"
  by code_simp

lemma big_weight_first:
  "first_weight (accepted (py_float (wrapping_env big_weight_lines)) big_weight_lines) ''a'' ''b'' =
     Some (Finite 3000000000)"
  by code_simp

lemma negative_init:
  "CSFGraph_init (wrapping_env negative_lines) (PyStr ''graph.txt'') = Inr negative_graph"
  by code_simp

lemma negative_first:
  "first_weight (accepted (py_float (wrapping_env negative_lines)) negative_lines) ''a'' ''b'' =
     Some (Finite (- (3 / 2)))"
  by code_simp

text \<open>
  Claim C10 says that \<open>weight(source, dest)\<close> is the parsed weight \<open>w\<close> truncated to an integer,
  for every stored edge. On the file of the one line \<open>a b 3e9\<close> the parsed weight is three
  thousand million, which is its own truncation and does not fit 32 bits; a numpy that wraps
  stores its low 32 bits, and \<open>weight(a, b)\<close> returns -1294967296.
\<close>

theorem weight_wraps_counterexample:
  "file_system (wrapping_env big_weight_lines) ''graph.txt'' = Some (Readable big_weight_lines) \<and>
   CSFGraph_init (wrapping_env big_weight_lines) (PyStr ''graph.txt'') = Inr big_weight_graph \<and>
   first_weight (accepted (py_float (wrapping_env big_weight_lines)) big_weight_lines) ''a'' ''b'' =
     Some (Finite 3000000000) \<and>
   \<bar>of_int 3000000000\<bar> \<le> \<bar>3000000000 :: rat\<bar> \<and>
   \<bar>(3000000000 :: rat) - of_int 3000000000\<bar> < 1 \<and>
   weight big_weight_graph ''a'' ''b'' = (Inr (- 1294967296), big_weight_graph) \<and>
   (- 1294967296 :: int) \<noteq> 3000000000"
proof -
  have "weight big_weight_graph ''a'' ''b'' = (Inr (- 1294967296), big_weight_graph)"
    by code_simp
  then show ?thesis
    using wrapping_file [of big_weight_lines] big_weight_init big_weight_first by simp
qed

text \<open>
  Claim C10, amended. Let the constructor return a graph, and let \<open>w\<close> be the weight of the
  accepted line from which the stored edge between \<open>a\<close> and \<open>b\<close> comes, the first one that
  joins them. Then \<open>w\<close> is finite; with \<open>t\<close> the integer that is \<open>w\<close> rounded towards zero,
  \<open>weight(a, b)\<close> returns \<open>t\<close> when \<open>t\<close> fits 32 bits, and otherwise what the installed numpy
  stores for \<open>t\<close> in an \<open>int32\<close> cell. The call leaves the graph as it is.
\<close>

theorem weight_truncated:
  assumes "file_system env path = Some (Readable lines)"
    and "CSFGraph_init env (PyStr path) = Inr g"
    and "first_weight (accepted (py_float env) lines) a b = Some w"
  shows "\<exists>q t. w = Finite q \<and> \<bar>of_int t\<bar> \<le> \<bar>q\<bar> \<and> \<bar>q - of_int t\<bar> < 1 \<and>
               weight g a b =
                 (if - (2 ^ 31) \<le> t \<and> t < 2 ^ 31 then Inr t else int32_out_of_range env t, g)"
proof -
  have b: "build env lines = Inr g" using assms(1,2) by (rule init_build)
  from stored_weight [OF b first_weight_key [OF assms(3)]] assms(3) obtain v where
    v: "int32_of_float (int32_out_of_range env) w = Inr v" and wt: "weight g a b = (Inr v, g)"
    by auto
  from v obtain q where q: "w = Finite q"
    by (cases w) (simp_all add: int32_of_float_def)
  let ?t = "py_trunc q"
  have "Inr v = (if - (2 ^ 31) \<le> ?t \<and> ?t < 2 ^ 31 then Inr ?t else int32_out_of_range env ?t)"
    using v unfolding q by (simp add: int32_of_float_def Let_def)
  with wt have "weight g a b =
      (if - (2 ^ 31) \<le> ?t \<and> ?t < 2 ^ 31 then Inr ?t else int32_out_of_range env ?t, g)"
    by simp
  with q py_trunc_towards_zero [of q] show ?thesis by blast
qed

text \<open>
  The amended claim C10 on the file of the one line \<open>a b -1.5\<close>: the weight is returned as
  -1, the integer next to it on the side of zero.
\<close>

theorem weight_truncated_witness:
  "file_system (wrapping_env negative_lines) ''graph.txt'' = Some (Readable negative_lines) \<and>
   CSFGraph_init (wrapping_env negative_lines) (PyStr ''graph.txt'') = Inr negative_graph \<and>
   first_weight (accepted (py_float (wrapping_env negative_lines)) negative_lines) ''a'' ''b'' =
     Some (Finite (- (3 / 2))) \<and>
   \<bar>of_int (- 1)\<bar> \<le> \<bar>- (3 / 2) :: rat\<bar> \<and>
   \<bar>(- (3 / 2) :: rat) - of_int (- 1)\<bar> < 1 \<and>
   - (2 ^ 31) \<le> (- 1 :: int) \<and> (- 1 :: int) < 2 ^ 31 \<and>
   weight negative_graph ''a'' ''b'' = (Inr (- 1), negative_graph)"
proof -
  note fl = wrapping_file [of negative_lines] and b = negative_init and f = negative_first
  from weight_truncated [OF fl b f] obtain q t where q: "Finite (- (3 / 2)) = Finite q"
    and t: "\<bar>of_int t\<bar> \<le> \<bar>q\<bar>" "\<bar>q - of_int t\<bar> < 1"
    and w: "weight negative_graph ''a'' ''b'' =
              (if - (2 ^ 31) \<le> t \<and> t < 2 ^ 31 then Inr t
               else int32_out_of_range (wrapping_env negative_lines) t, negative_graph)"
    by blast
  from q have "- (3 / 2) = q" by (simp only: pyfloat.inject)
  then have qe: "q = - (3 / 2)" by (rule sym)
  have "py_trunc (- (3 / 2)) = - 1" by code_simp
  with towards_zero_unique [OF t] qe have te: "t = - 1" by simp
  from w have "weight negative_graph ''a'' ''b'' = (Inr (- 1), negative_graph)"
    unfolding te by simp
  with fl b f show ?thesis by simp
qed

end
